theory Spec2Isabelle
  imports Main "HOL-Library.Word" "HOL-Library.Multiset"
begin

section \<open>Data model (bank.go, lines 9-25)\<close>

text \<open>
  Go's \<open>int\<close> is a machine integer; on the 64-bit targets it is 64 bits wide, and
  \<open>+\<close>, \<open>-\<close> wrap around in two's complement. Balances and amounts are therefore
  64-bit words; \<open>sint\<close> reads the signed value and \<open>\<le>s\<close> is Go's signed \<open><=\<close>.
\<close>

type_synonym go_int = "64 word"

record Transaction =
  Amount :: go_int
  Source :: string
  CustomerID :: string
  Type :: string

record Ledger =
  CustomerBalance :: go_int
  BankBalance :: go_int

text \<open>
  What an executor reports for one request (the message it prints): a committed
  withdrawal, a withdrawal rejected for insufficient funds, a committed deposit, or
  nothing at all (the serializing worker prints no result for a transaction whose
  \<open>Type\<close> is neither string).
\<close>

datatype outcome = WithdrawalOK | InsufficientFunds | DepositOK | Ignored

section \<open>The Serializing Executor (bank.go, lines 62-92)\<close>

text \<open>
  One iteration of the loop \<open>for tx := range txChan\<close>, lines 76-90: the ledger behind
  the pointer is passed in and returned updated, together with the reported outcome.
\<close>

definition processTx :: "Ledger \<Rightarrow> Transaction \<Rightarrow> outcome \<times> Ledger" where
  "processTx ledger tx =
     (if Type tx = ''withdrawal'' then
        (if Amount tx \<le>s CustomerBalance ledger then
           (WithdrawalOK,
            ledger\<lparr>CustomerBalance := CustomerBalance ledger - Amount tx,
                   BankBalance := BankBalance ledger + Amount tx\<rparr>)
         else (InsufficientFunds, ledger))
      else if Type tx = ''deposit'' then
        (DepositOK,
         ledger\<lparr>CustomerBalance := CustomerBalance ledger + Amount tx,
                BankBalance := BankBalance ledger - Amount tx\<rparr>)
      else (Ignored, ledger))"

text \<open>
  The whole loop, on the sequence of transactions the worker receives from the channel
  before it is closed. The result is the list of outcomes, in order, and the final ledger.
\<close>

fun transactionProcessor :: "Ledger \<Rightarrow> Transaction list \<Rightarrow> outcome list \<times> Ledger" where
  "transactionProcessor ledger [] = ([], ledger)"
| "transactionProcessor ledger (tx # txs) =
     (let (r, ledger') = processTx ledger tx;
          (rs, ledger'') = transactionProcessor ledger' txs
      in (r # rs, ledger''))"

text \<open>The sum printed at line 165: \<open>ledger.CustomerBalance+ledger.BankBalance\<close>.\<close>

definition ledger_total :: "Ledger \<Rightarrow> go_int" where
  "ledger_total ledger = CustomerBalance ledger + BankBalance ledger"

section \<open>Goroutines over the shared variables\<close>

text \<open>
  The program's shared state: the process-wide \<open>balance\<close> (line 10) and mutex \<open>mu\<close>
  (line 11), the \<open>Ledger\<close> that \<open>testChannelBased\<close> hands to its worker by pointer,
  the worker itself, and the goroutines started with \<open>go\<close>.

  A goroutine is a program point of \<open>withdrawRace\<close>, \<open>withdrawMutex\<close>, \<open>deposit\<close> or of
  a producer closure, with the values of its locals. Every access to shared state is a
  step of its own: \<open>balance -= amount\<close> and \<open>balance += amount\<close> read \<open>balance\<close> and then
  write it, and nothing in the language makes the two one step. Printing and
  \<open>time.Sleep\<close> touch no shared state and are not steps.
\<close>

datatype goroutine =
    RaceCheck go_int \<comment> \<open>\<open>withdrawRace\<close>, line 31: about to test \<open>balance >= amount\<close>\<close>
  | RaceLoad go_int \<comment> \<open>line 34, after the sleep: about to read \<open>balance\<close>\<close>
  | RaceStore go_int go_int \<comment> \<open>line 34: about to write \<open>balance\<close>, holding the value read\<close>
  | MutexLock go_int \<comment> \<open>\<open>withdrawMutex\<close>, line 177: about to call \<open>mu.Lock()\<close>\<close>
  | MutexCheck go_int \<comment> \<open>line 181, lock held: about to test \<open>balance >= amount\<close>\<close>
  | MutexLoad go_int \<comment> \<open>line 184, lock held: about to read \<open>balance\<close>\<close>
  | MutexStore go_int go_int \<comment> \<open>line 184, lock held: about to write \<open>balance\<close>\<close>
  | DepositLock go_int \<comment> \<open>\<open>deposit\<close>, line 199: about to call \<open>mu.Lock()\<close>\<close>
  | DepositLoad go_int \<comment> \<open>line 204, lock held: about to read \<open>balance\<close>\<close>
  | DepositStore go_int go_int \<comment> \<open>line 204, lock held: about to write \<open>balance\<close>\<close>
  | Unlock outcome go_int \<comment> \<open>returning: the deferred \<open>mu.Unlock()\<close> and \<open>wg.Done()\<close>\<close>
  | Returned outcome go_int \<comment> \<open>the call has returned, with its outcome and amount\<close>
  | Send Transaction \<comment> \<open>a producer, lines 116, 125, 136, 147: at \<open>txChan <- tx\<close>\<close>
  | Sent \<comment> \<open>the producer's send has completed\<close>

text \<open>
  The worker \<open>transactionProcessor\<close>: not started, waiting at \<open>range txChan\<close> (line 63),
  or holding a received transaction (lines 64-90).
\<close>

datatype worker = NotRunning | Receiving | Processing Transaction

record world =
  balance :: go_int
  mu :: bool \<comment> \<open>\<open>True\<close> while \<open>mu\<close> is locked\<close>
  ledger :: Ledger
  worker :: worker
  goroutines :: "goroutine list"

text \<open>
  One step of a goroutine: its next program point and the shared state after it, or \<open>None\<close>
  when it cannot move (blocked in \<open>mu.Lock()\<close>, blocked in a send, or returned).
  \<open>txChan\<close> is made by \<open>make(chan Transaction)\<close> (line 109), with no capacity: it is
  unbuffered, so a send completes only by handing the value to a receiver that is waiting.
\<close>

fun goroutine_step :: "goroutine \<Rightarrow> world \<Rightarrow> (goroutine \<times> world) option" where
  "goroutine_step (RaceCheck a) w =
     Some (if a \<le>s balance w then RaceLoad a else Returned InsufficientFunds a, w)"
| "goroutine_step (RaceLoad a) w = Some (RaceStore a (balance w), w)"
| "goroutine_step (RaceStore a v) w = Some (Returned WithdrawalOK a, w\<lparr>balance := v - a\<rparr>)"
| "goroutine_step (MutexLock a) w =
     (if mu w then None else Some (MutexCheck a, w\<lparr>mu := True\<rparr>))"
| "goroutine_step (MutexCheck a) w =
     Some (if a \<le>s balance w then MutexLoad a else Unlock InsufficientFunds a, w)"
| "goroutine_step (MutexLoad a) w = Some (MutexStore a (balance w), w)"
| "goroutine_step (MutexStore a v) w = Some (Unlock WithdrawalOK a, w\<lparr>balance := v - a\<rparr>)"
| "goroutine_step (DepositLock a) w =
     (if mu w then None else Some (DepositLoad a, w\<lparr>mu := True\<rparr>))"
| "goroutine_step (DepositLoad a) w = Some (DepositStore a (balance w), w)"
| "goroutine_step (DepositStore a v) w = Some (Unlock DepositOK a, w\<lparr>balance := v + a\<rparr>)"
| "goroutine_step (Unlock r a) w = Some (Returned r a, w\<lparr>mu := False\<rparr>)"
| "goroutine_step (Returned r a) w = None"
| "goroutine_step (Send tx) w =
     (if worker w = Receiving then Some (Sent, w\<lparr>worker := Processing tx\<rparr>) else None)"
| "goroutine_step Sent w = None"

text \<open>The scheduler picks who moves next: one of the goroutines, or the worker.\<close>

datatype actor = Goroutine nat | Worker

fun step :: "actor \<Rightarrow> world \<Rightarrow> world option" where
  "step (Goroutine i) w =
     (if i < length (goroutines w) then
        (case goroutine_step (goroutines w ! i) w of
           None \<Rightarrow> None
         | Some (g, w') \<Rightarrow> Some (w'\<lparr>goroutines := (goroutines w')[i := g]\<rparr>))
      else None)"
| "step Worker w =
     (case worker w of
        Processing tx \<Rightarrow>
          Some (w\<lparr>ledger := snd (processTx (ledger w) tx), worker := Receiving\<rparr>)
      | _ \<Rightarrow> None)"

text \<open>A schedule is run from left to right; it fails where the chosen actor cannot move.\<close>

fun run :: "actor list \<Rightarrow> world \<Rightarrow> world option" where
  "run [] w = Some w"
| "run (a # as) w = (case step a w of None \<Rightarrow> None | Some w' \<Rightarrow> run as w')"

text \<open>\<open>wg.Wait()\<close> returns once every goroutine it counts has returned.\<close>

fun returned :: "goroutine \<Rightarrow> bool" where
  "returned (Returned r a) = True"
| "returned Sent = True"
| "returned g = False"

definition all_returned :: "world \<Rightarrow> bool" where
  "all_returned w = list_all returned (goroutines w)"

section \<open>The scenarios\<close>

text \<open>\<open>testRaceCondition\<close>, lines 45-49 (and each run of the first loop of \<open>testComparison\<close>).\<close>

definition testRaceCondition_start :: "Ledger \<Rightarrow> world" where
  "testRaceCondition_start l =
     \<lparr>balance = 1000, mu = False, ledger = l, worker = NotRunning,
      goroutines = [RaceCheck 700, RaceCheck 500]\<rparr>"

text \<open>\<open>testMutex\<close>, lines 213-221 (and each run of the second loop of \<open>testComparison\<close>).\<close>

definition testMutex_start :: "Ledger \<Rightarrow> world" where
  "testMutex_start l =
     \<lparr>balance = 1000, mu = False, ledger = l, worker = NotRunning,
      goroutines = [MutexLock 700, MutexLock 500]\<rparr>"

text \<open>
  \<open>testMutex\<close>, lines 229-232: the three further calls, started on the balance \<open>b\<close> that
  the first two withdrawals left.
\<close>

definition testMutex_bonus_start :: "go_int \<Rightarrow> Ledger \<Rightarrow> world" where
  "testMutex_bonus_start b l =
     \<lparr>balance = b, mu = False, ledger = l, worker = NotRunning,
      goroutines = [MutexLock 400, DepositLock 1000, DepositLock 200]\<rparr>"

text \<open>\<open>testChannelBased\<close>, lines 100-153: the ledger, the worker and the four producers.\<close>

definition tx_phone :: Transaction where
  "tx_phone = \<lparr>Amount = 700, Source = ''Phone Transfer'', CustomerID = ''CUST1001'',
                Type = ''withdrawal''\<rparr>"

definition tx_atm :: Transaction where
  "tx_atm = \<lparr>Amount = 500, Source = ''ATM Withdrawal'', CustomerID = ''CUST1001'',
              Type = ''withdrawal''\<rparr>"

definition tx_online :: Transaction where
  "tx_online = \<lparr>Amount = 400, Source = ''Online Purchase'', CustomerID = ''CUST1001'',
                 Type = ''withdrawal''\<rparr>"

definition tx_salary :: Transaction where
  "tx_salary = \<lparr>Amount = 1500, Source = ''Salary Deposit'', CustomerID = ''CUST1001'',
                 Type = ''deposit''\<rparr>"

definition testChannelBased_ledger :: Ledger where
  "testChannelBased_ledger = \<lparr>CustomerBalance = 1000, BankBalance = 5000\<rparr>"

definition testChannelBased_start :: "go_int \<Rightarrow> world" where
  "testChannelBased_start b =
     \<lparr>balance = b, mu = False, ledger = testChannelBased_ledger, worker = Receiving,
      goroutines = [Send tx_phone, Send tx_atm, Send tx_online, Send tx_salary]\<rparr>"

text \<open>The order in which the four sends are written in \<open>testChannelBased\<close>.\<close>

definition submitted :: "Transaction list" where
  "submitted = [tx_phone, tx_atm, tx_online, tx_salary]"

section \<open>Notions used in the statements\<close>

text \<open>An outcome that changed the balances.\<close>

fun committed :: "outcome \<Rightarrow> bool" where
  "committed WithdrawalOK = True"
| "committed DepositOK = True"
| "committed r = False"

text \<open>The signed change a committed transaction makes to the customer's side.\<close>

definition net :: "Transaction \<Rightarrow> go_int" where
  "net tx = (if Type tx = ''withdrawal'' then - Amount tx
             else if Type tx = ''deposit'' then Amount tx else 0)"

text \<open>The sum, as an unbounded integer, of the amounts of the deposits in a sequence.\<close>

fun deposits_total :: "Transaction list \<Rightarrow> int" where
  "deposits_total [] = 0"
| "deposits_total (tx # txs) =
     (if Type tx = ''deposit'' then sint (Amount tx) else 0) + deposits_total txs"

text \<open>
  A goroutine that has just been started on \<open>withdrawMutex\<close> or \<open>deposit\<close>, and a world
  in which the lock is free and every goroutine is such a request.
\<close>

fun request :: "goroutine \<Rightarrow> bool" where
  "request (MutexLock a) = True"
| "request (DepositLock a) = True"
| "request g = False"

definition lock_guarded_start :: "world \<Rightarrow> bool" where
  "lock_guarded_start w \<longleftrightarrow> \<not> mu w \<and> list_all request (goroutines w)"

text \<open>The amounts of the returned calls that committed a deposit, or a withdrawal.\<close>

fun deposited :: "goroutine \<Rightarrow> go_int" where
  "deposited (Returned DepositOK a) = a"
| "deposited g = 0"

fun withdrawn :: "goroutine \<Rightarrow> go_int" where
  "withdrawn (Returned WithdrawalOK a) = a"
| "withdrawn g = 0"

definition committed_deposits :: "world \<Rightarrow> go_int" where
  "committed_deposits w = sum_list (map deposited (goroutines w))"

definition committed_withdrawals :: "world \<Rightarrow> go_int" where
  "committed_withdrawals w = sum_list (map withdrawn (goroutines w))"

text \<open>The amount a goroutine was called with is positive.\<close>

fun positive :: "goroutine \<Rightarrow> bool" where
  "positive (RaceCheck a) = (0 <s a)"
| "positive (RaceLoad a) = (0 <s a)"
| "positive (RaceStore a v) = (0 <s a)"
| "positive (MutexLock a) = (0 <s a)"
| "positive (MutexCheck a) = (0 <s a)"
| "positive (MutexLoad a) = (0 <s a)"
| "positive (MutexStore a v) = (0 <s a)"
| "positive (DepositLock a) = (0 <s a)"
| "positive (DepositLoad a) = (0 <s a)"
| "positive (DepositStore a v) = (0 <s a)"
| "positive (Unlock r a) = (0 <s a)"
| "positive (Returned r a) = (0 <s a)"
| "positive (Send tx) = (0 <s Amount tx)"
| "positive Sent = True"

text \<open>The amount, as an unbounded integer, that a deposit call has still to add.\<close>

fun deposit_due :: "goroutine \<Rightarrow> int" where
  "deposit_due (DepositLock a) = sint a"
| "deposit_due (DepositLoad a) = sint a"
| "deposit_due (DepositStore a v) = sint a"
| "deposit_due g = 0"

text \<open>The goroutines between \<open>mu.Lock()\<close> and the deferred \<open>mu.Unlock()\<close>.\<close>

fun in_cs :: "goroutine \<Rightarrow> bool" where
  "in_cs (MutexCheck a) = True"
| "in_cs (MutexLoad a) = True"
| "in_cs (MutexStore a v) = True"
| "in_cs (DepositLoad a) = True"
| "in_cs (DepositStore a v) = True"
| "in_cs (Unlock r a) = True"
| "in_cs g = False"

text \<open>The goroutines of the Lock-Guarded Executor (returned calls included).\<close>

fun lock_guarded :: "goroutine \<Rightarrow> bool" where
  "lock_guarded (RaceCheck a) = False"
| "lock_guarded (RaceLoad a) = False"
| "lock_guarded (RaceStore a v) = False"
| "lock_guarded (Send tx) = False"
| "lock_guarded Sent = False"
| "lock_guarded g = True"

text \<open>
  What a goroutine inside the critical section knows is still true of \<open>balance\<close>: the
  check it passed still holds, and the value it read is still the value stored.
\<close>

fun consistent :: "go_int \<Rightarrow> goroutine \<Rightarrow> bool" where
  "consistent b (MutexLoad a) = (a \<le>s b)"
| "consistent b (MutexStore a v) = (v = b \<and> a \<le>s b)"
| "consistent b (DepositStore a v) = (v = b)"
| "consistent b g = True"

text \<open>
  The lock discipline: only lock-guarded goroutines run, whoever is inside the critical
  section holds \<open>mu\<close>, is alone there, and is consistent with \<open>balance\<close>.
\<close>

definition lock_inv :: "world \<Rightarrow> bool" where
  "lock_inv w \<longleftrightarrow>
     list_all lock_guarded (goroutines w) \<and>
     (\<forall>i < length (goroutines w). in_cs (goroutines w ! i) \<longrightarrow>
        mu w \<and> consistent (balance w) (goroutines w ! i) \<and>
        (\<forall>j < length (goroutines w). in_cs (goroutines w ! j) \<longrightarrow> j = i))"

text \<open>What a goroutine has already added to \<open>balance\<close>.\<close>

fun contrib :: "goroutine \<Rightarrow> go_int" where
  "contrib (Unlock WithdrawalOK a) = - a"
| "contrib (Returned WithdrawalOK a) = - a"
| "contrib (Unlock DepositOK a) = a"
| "contrib (Returned DepositOK a) = a"
| "contrib g = 0"

text \<open>The balance stays in range: non-negative, with room for the deposits still due.\<close>

definition safe :: "world \<Rightarrow> bool" where
  "safe w \<longleftrightarrow>
     0 \<le> sint (balance w) \<and>
     sint (balance w) + sum_list (map deposit_due (goroutines w)) < 2 ^ 63 \<and>
     list_all positive (goroutines w)"

text \<open>An upper bound on the steps a goroutine, the worker, and a world have left.\<close>

fun remaining :: "goroutine \<Rightarrow> nat" where
  "remaining (RaceCheck a) = 3"
| "remaining (RaceLoad a) = 2"
| "remaining (RaceStore a v) = 1"
| "remaining (MutexLock a) = 5"
| "remaining (MutexCheck a) = 4"
| "remaining (MutexLoad a) = 3"
| "remaining (MutexStore a v) = 2"
| "remaining (DepositLock a) = 4"
| "remaining (DepositLoad a) = 3"
| "remaining (DepositStore a v) = 2"
| "remaining (Unlock r a) = 1"
| "remaining (Returned r a) = 0"
| "remaining (Send tx) = 2"
| "remaining Sent = 0"

fun in_hand :: "worker \<Rightarrow> Transaction list" where
  "in_hand (Processing tx) = [tx]"
| "in_hand k = []"

definition work :: "world \<Rightarrow> nat" where
  "work w = sum_list (map remaining (goroutines w)) + length (in_hand (worker w))"

text \<open>
  The transactions handed to the worker along a schedule, in the order in which their
  sends complete.
\<close>

fun sent_by :: "actor \<Rightarrow> world \<Rightarrow> Transaction list" where
  "sent_by (Goroutine k) w =
     (if k < length (goroutines w) then
        (case goroutines w ! k of Send tx \<Rightarrow> [tx] | _ \<Rightarrow> [])
      else [])"
| "sent_by Worker w = []"

fun handoffs :: "actor list \<Rightarrow> world \<Rightarrow> Transaction list" where
  "handoffs [] w = []"
| "handoffs (a # as) w =
     (case step a w of None \<Rightarrow> [] | Some w' \<Rightarrow> sent_by a w @ handoffs as w')"

text \<open>The transaction a producer has still to send.\<close>

fun unsent :: "goroutine \<Rightarrow> Transaction list" where
  "unsent (Send tx) = [tx]"
| "unsent g = []"

text \<open>The actors of the Serializing Executor: the worker and the producers at their send.\<close>

fun is_send :: "goroutine \<Rightarrow> bool" where
  "is_send (Send tx) = True"
| "is_send g = False"

fun serializing :: "actor \<Rightarrow> world \<Rightarrow> bool" where
  "serializing Worker w = True"
| "serializing (Goroutine k) w = (k < length (goroutines w) \<and> is_send (goroutines w ! k))"

text \<open>
  The states \<open>testMutex\<close> can be in while its first two withdrawals run: the two
  goroutines, \<open>balance\<close> and \<open>mu\<close>.
\<close>

definition testMutex_states :: "(goroutine list \<times> go_int \<times> bool) list" where
  "testMutex_states =
     [([MutexLock 700, MutexLock 500], 1000, False),
      ([MutexCheck 700, MutexLock 500], 1000, True),
      ([MutexLoad 700, MutexLock 500], 1000, True),
      ([MutexStore 700 1000, MutexLock 500], 1000, True),
      ([Unlock WithdrawalOK 700, MutexLock 500], 300, True),
      ([Returned WithdrawalOK 700, MutexLock 500], 300, False),
      ([Returned WithdrawalOK 700, MutexCheck 500], 300, True),
      ([Returned WithdrawalOK 700, Unlock InsufficientFunds 500], 300, True),
      ([Returned WithdrawalOK 700, Returned InsufficientFunds 500], 300, False),
      ([MutexLock 700, MutexCheck 500], 1000, True),
      ([MutexLock 700, MutexLoad 500], 1000, True),
      ([MutexLock 700, MutexStore 500 1000], 1000, True),
      ([MutexLock 700, Unlock WithdrawalOK 500], 500, True),
      ([MutexLock 700, Returned WithdrawalOK 500], 500, False),
      ([MutexCheck 700, Returned WithdrawalOK 500], 500, True),
      ([Unlock InsufficientFunds 700, Returned WithdrawalOK 500], 500, True),
      ([Returned InsufficientFunds 700, Returned WithdrawalOK 500], 500, False)]"

definition testMutex_world :: "Ledger \<Rightarrow> goroutine list \<times> go_int \<times> bool \<Rightarrow> world" where
  "testMutex_world l t =
     (case t of (gs, b, m) \<Rightarrow>
        \<lparr>balance = b, mu = m, ledger = l, worker = NotRunning, goroutines = gs\<rparr>)"

definition testMutex_worlds :: "Ledger \<Rightarrow> world set" where
  "testMutex_worlds l = testMutex_world l ` set testMutex_states"

section \<open>Arithmetic and lists\<close>

lemma sum_list_map_update:
  fixes f :: "'a \<Rightarrow> 'b::ab_group_add"
  shows "i < length xs \<Longrightarrow>
    sum_list (map f (xs[i := y])) = sum_list (map f xs) - f (xs ! i) + f y"
proof (induction xs arbitrary: i)
  case Nil
  then show ?case by simp
next
  case (Cons x xs)
  then show ?case by (cases i) (simp_all add: algebra_simps)
qed

lemma nth_le_sum_list:
  fixes f :: "'a \<Rightarrow> int"
  shows "list_all (\<lambda>x. 0 \<le> f x) xs \<Longrightarrow> i < length xs \<Longrightarrow>
    f (xs ! i) \<le> sum_list (map f xs)"
proof (induction xs arbitrary: i)
  case Nil
  then show ?case by simp
next
  case (Cons x xs)
  have "0 \<le> sum_list (map f xs)"
    by (rule sum_list_nonneg) (use Cons.prems(1) in \<open>auto simp: list_all_iff\<close>)
  with Cons show ?case by (cases i) (auto simp: add_increasing)
qed

text \<open>Subtraction and addition do not wrap when the exact result is in range.\<close>

lemma sint_sub_exact:
  fixes v a :: go_int
  assumes "0 \<le> sint v" "0 < sint a" "sint a \<le> sint v"
  shows "sint (v - a) = sint v - sint a"
proof -
  have "sint v < 2 ^ 63" using sint_lt [of v] by simp
  with assms have "- (2 ^ 63) \<le> sint v - sint a" "sint v - sint a < 2 ^ 63" by linarith+
  then show ?thesis by (simp add: sint_word_ariths signed_take_bit_int_eq_self)
qed

lemma sint_add_exact:
  fixes v a :: go_int
  assumes "0 \<le> sint v" "0 < sint a" "sint v + sint a < 2 ^ 63"
  shows "sint (v + a) = sint v + sint a"
proof -
  from assms have "- (2 ^ 63) \<le> sint v + sint a" by linarith
  with assms(3) show ?thesis by (simp add: sint_word_ariths signed_take_bit_int_eq_self)
qed

section \<open>The worker's loop\<close>

lemma total_processTx: "ledger_total (snd (processTx l tx)) = ledger_total l"
  by (simp add: processTx_def ledger_total_def)

lemma total_transactionProcessor:
  "ledger_total (snd (transactionProcessor l txs)) = ledger_total l"
proof (induction txs arbitrary: l)
  case Nil
  show ?case by simp
next
  case (Cons tx txs)
  have "ledger_total (snd (transactionProcessor (snd (processTx l tx)) txs)) =
        ledger_total (snd (processTx l tx))" by (rule Cons.IH)
  then show ?case by (simp add: total_processTx split_beta)
qed

lemma transactionProcessor_append:
  "snd (transactionProcessor l (xs @ ys)) =
   snd (transactionProcessor (snd (transactionProcessor l xs)) ys)"
  by (induction xs arbitrary: l) (auto simp: split_beta)

lemma deposits_total_nonneg:
  "list_all (\<lambda>tx. 0 <s Amount tx) txs \<Longrightarrow> 0 \<le> deposits_total txs"
  by (induction txs) (auto simp: word_sless_alt)

lemma deposits_total_append:
  "deposits_total (xs @ ys) = deposits_total xs + deposits_total ys"
  by (induction xs) auto

lemma processTx_nonneg:
  assumes "0 \<le> sint (CustomerBalance l)" "0 < sint (Amount tx)"
    "sint (CustomerBalance l) + (if Type tx = ''deposit'' then sint (Amount tx) else 0) < 2 ^ 63"
  shows "0 \<le> sint (CustomerBalance (snd (processTx l tx)))"
    and "sint (CustomerBalance (snd (processTx l tx))) \<le>
         sint (CustomerBalance l) + (if Type tx = ''deposit'' then sint (Amount tx) else 0)"
  using assms
  by (auto simp: processTx_def word_sle_eq sint_sub_exact sint_add_exact)

lemma transactionProcessor_nonneg:
  assumes "0 \<le> sint (CustomerBalance l)" "list_all (\<lambda>tx. 0 <s Amount tx) txs"
    "sint (CustomerBalance l) + deposits_total txs < 2 ^ 63"
  shows "0 \<le> sint (CustomerBalance (snd (transactionProcessor l txs)))"
  using assms
proof (induction txs arbitrary: l)
  case Nil
  then show ?case by simp
next
  case (Cons tx txs)
  let ?d = "if Type tx = ''deposit'' then sint (Amount tx) else 0"
  from Cons.prems have pos: "0 < sint (Amount tx)"
    and rest: "list_all (\<lambda>tx. 0 <s Amount tx) txs"
    by (auto simp: word_sless_alt)
  from deposits_total_nonneg [OF rest] Cons.prems(3)
  have "sint (CustomerBalance l) + ?d < 2 ^ 63" by (simp split: if_splits)
  from processTx_nonneg [OF Cons.prems(1) pos this] Cons.prems(3)
  have "0 \<le> sint (CustomerBalance (snd (processTx l tx)))"
    "sint (CustomerBalance (snd (processTx l tx))) + deposits_total txs < 2 ^ 63"
    by (auto split: if_splits)
  from Cons.IH [OF this(1) rest this(2)] show ?case by (simp add: split_beta)
qed

lemma transactionProcessor_prefix_nonneg:
  assumes "0 \<le> sint (CustomerBalance l)" "list_all (\<lambda>tx. 0 <s Amount tx) txs"
    "sint (CustomerBalance l) + deposits_total txs < 2 ^ 63"
  shows "0 \<le> sint (CustomerBalance (snd (transactionProcessor l (take n txs))))"
proof -
  from assms(2) have p1: "list_all (\<lambda>tx. 0 <s Amount tx) (take n txs)"
    and p2: "list_all (\<lambda>tx. 0 <s Amount tx) (drop n txs)"
    by (auto simp: list_all_iff dest: in_set_takeD in_set_dropD)
  have "deposits_total txs = deposits_total (take n txs) + deposits_total (drop n txs)"
    using deposits_total_append [of "take n txs" "drop n txs"] by simp
  with deposits_total_nonneg [OF p2] assms(3)
  have "sint (CustomerBalance l) + deposits_total (take n txs) < 2 ^ 63" by linarith
  with assms(1) p1 show ?thesis by (rule transactionProcessor_nonneg)
qed

lemma committed_not_rejected: "list_all committed rs \<Longrightarrow> InsufficientFunds \<notin> set rs"
  by (induction rs) auto

lemma transactionProcessor_all_committed:
  assumes "InsufficientFunds \<notin> set (fst (transactionProcessor l txs))"
  shows "snd (transactionProcessor l txs) =
         \<lparr>CustomerBalance = CustomerBalance l + sum_list (map net txs),
          BankBalance = BankBalance l - sum_list (map net txs)\<rparr>"
  using assms
proof (induction txs arbitrary: l)
  case Nil
  show ?case by simp
next
  case (Cons tx txs)
  let ?l = "snd (processTx l tx)"
  from Cons.prems have a: "fst (processTx l tx) \<noteq> InsufficientFunds"
    and b: "InsufficientFunds \<notin> set (fst (transactionProcessor ?l txs))"
    by (auto simp: split_beta)
  from a have "?l = \<lparr>CustomerBalance = CustomerBalance l + net tx,
                      BankBalance = BankBalance l - net tx\<rparr>"
    by (auto simp: processTx_def net_def split: if_splits)
  with Cons.IH [OF b] show ?case by (simp add: split_beta algebra_simps)
qed

lemma sum_list_net_mset:
  assumes "mset txs = mset txs'"
  shows "sum_list (map net txs) = sum_list (map net txs')"
proof -
  from assms have "sum_mset (image_mset net (mset txs)) = sum_mset (image_mset net (mset txs'))"
    by simp
  then show ?thesis by (simp only: mset_map [symmetric] sum_mset_sum_list)
qed

lemma net_submitted: "sum_list (map net submitted) = - 100"
  by (simp add: submitted_def net_def tx_phone_def tx_atm_def tx_online_def tx_salary_def)

text \<open>
  In the order in which the sends are written, the second and third withdrawals are
  rejected: after the first the customer has 300.
\<close>

lemma transactionProcessor_submitted:
  "transactionProcessor testChannelBased_ledger submitted =
     ([WithdrawalOK, InsufficientFunds, InsufficientFunds, DepositOK],
      \<lparr>CustomerBalance = 1800, BankBalance = 4200\<rparr>)"
  by (simp add: submitted_def testChannelBased_ledger_def tx_phone_def tx_atm_def
      tx_online_def tx_salary_def processTx_def word_sle_eq)

section \<open>Steps and schedules\<close>

lemma goroutine_step_goroutines:
  "goroutine_step g w = Some (g', w1) \<Longrightarrow> goroutines w1 = goroutines w"
  by (cases g) (auto split: if_splits)

lemma step_Goroutine_Some:
  assumes "step (Goroutine k) w = Some w'"
  obtains g' w1 where "k < length (goroutines w)"
    and "goroutine_step (goroutines w ! k) w = Some (g', w1)"
    and "w' = w1\<lparr>goroutines := (goroutines w)[k := g']\<rparr>"
proof -
  from assms have k: "k < length (goroutines w)" by (simp split: if_splits)
  with assms obtain g' w1 where s: "goroutine_step (goroutines w ! k) w = Some (g', w1)"
    and w': "w' = w1\<lparr>goroutines := (goroutines w1)[k := g']\<rparr>"
    by (auto split: option.splits)
  from s have "goroutines w1 = goroutines w" by (rule goroutine_step_goroutines)
  with k s w' that show thesis by simp
qed

lemma run_Cons_Some:
  assumes "run (a # sched) w = Some w'"
  obtains w1 where "step a w = Some w1" and "run sched w1 = Some w'"
  using assms by (auto split: option.splits)

text \<open>A property that every step preserves holds after every schedule.\<close>

lemma run_invariant:
  assumes pres: "\<And>a w w'. I w \<Longrightarrow> step a w = Some w' \<Longrightarrow> I w'"
  shows "I w \<Longrightarrow> run sched w = Some w' \<Longrightarrow> I w'"
proof (induction sched arbitrary: w)
  case Nil
  then show ?case by simp
next
  case (Cons a sched)
  from Cons.prems(2) obtain w1 where s: "step a w = Some w1" and r: "run sched w1 = Some w'"
    by (rule run_Cons_Some)
  from pres [OF Cons.prems(1) s] r show ?case by (rule Cons.IH)
qed

text \<open>Every step uses up work, so every schedule that runs is finite and bounded.\<close>

lemma goroutine_step_remaining:
  assumes "goroutine_step g w = Some (g', w1)"
  shows "remaining g' + length (in_hand (worker w1)) < remaining g + length (in_hand (worker w))"
  using assms by (cases g) (auto split: if_splits)

lemma remaining_le_sum:
  "k < length gs \<Longrightarrow> remaining (gs ! k) \<le> sum_list (map remaining gs)"
proof (induction gs arbitrary: k)
  case Nil
  then show ?case by simp
next
  case (Cons g gs)
  then show ?case by (cases k) (auto simp: trans_le_add2)
qed

lemma remaining_update:
  assumes "k < length gs"
  shows "sum_list (map remaining (gs[k := g])) + remaining (gs ! k) =
         sum_list (map remaining gs) + remaining g"
  using assms
proof (induction gs arbitrary: k)
  case Nil
  then show ?case by simp
next
  case (Cons x gs)
  then show ?case by (cases k) (auto simp: add.assoc)
qed

lemma step_work:
  assumes "step a w = Some w'"
  shows "work w' < work w"
proof (cases a)
  case Worker
  with assms show ?thesis by (auto simp: work_def split: worker.splits)
next
  case (Goroutine k)
  from assms have "step (Goroutine k) w = Some w'" unfolding Goroutine .
  then obtain g' w1 where k: "k < length (goroutines w)"
    and s: "goroutine_step (goroutines w ! k) w = Some (g', w1)"
    and w': "w' = w1\<lparr>goroutines := (goroutines w)[k := g']\<rparr>"
    by (rule step_Goroutine_Some)
  from goroutine_step_remaining [OF s] remaining_update [OF k, of g']
  show ?thesis by (simp add: work_def w')
qed

lemma run_work: "run sched w = Some w' \<Longrightarrow> length sched + work w' \<le> work w"
proof (induction sched arbitrary: w)
  case Nil
  then show ?case by simp
next
  case (Cons a sched)
  from Cons.prems obtain w1 where s: "step a w = Some w1" and r: "run sched w1 = Some w'"
    by (rule run_Cons_Some)
  from Cons.IH [OF r] step_work [OF s] show ?case by simp
qed

section \<open>The lock discipline\<close>

lemma lock_step_inside:
  assumes "goroutine_step g w = Some (g', w1)" "in_cs g" "consistent (balance w) g"
  shows "lock_guarded g'" and "in_cs g' \<Longrightarrow> mu w1 = mu w \<and> consistent (balance w1) g'"
  using assms by (cases g; auto split: if_splits)+

lemma lock_step_outside:
  assumes "goroutine_step g w = Some (g', w1)" "lock_guarded g" "\<not> in_cs g"
  shows "\<not> mu w" and "mu w1" and "in_cs g'" and "consistent (balance w1) g'"
    and "lock_guarded g'"
  using assms by (cases g; auto split: if_splits)+

lemma lock_inv_step:
  assumes inv: "lock_inv w" and st: "step a w = Some w'"
  shows "lock_inv w'"
proof (cases a)
  case Worker
  with assms show ?thesis by (auto simp: lock_inv_def split: worker.splits)
next
  case (Goroutine k)
  from st have "step (Goroutine k) w = Some w'" unfolding Goroutine .
  then obtain g' w1 where k: "k < length (goroutines w)"
    and s: "goroutine_step (goroutines w ! k) w = Some (g', w1)"
    and w': "w' = w1\<lparr>goroutines := (goroutines w)[k := g']\<rparr>"
    by (rule step_Goroutine_Some)
  let ?gs = "goroutines w"
  from inv have lg: "\<And>j. j < length ?gs \<Longrightarrow> lock_guarded (?gs ! j)"
    and cs: "\<And>i. i < length ?gs \<Longrightarrow> in_cs (?gs ! i) \<Longrightarrow>
                mu w \<and> consistent (balance w) (?gs ! i) \<and>
                (\<forall>j < length ?gs. in_cs (?gs ! j) \<longrightarrow> j = i)"
    by (auto simp: lock_inv_def list_all_length)
  have gs': "goroutines w' = ?gs[k := g']" "balance w' = balance w1" "mu w' = mu w1"
    using w' by simp_all
  show ?thesis
  proof (cases "in_cs (?gs ! k)")
    case True
    from cs [OF k True] have m: "mu w" and c: "consistent (balance w) (?gs ! k)"
      and u: "\<And>j. j < length ?gs \<Longrightarrow> in_cs (?gs ! j) \<Longrightarrow> j = k" by auto
    from lock_step_inside [OF s True c]
    have l': "lock_guarded g'"
      and i': "in_cs g' \<Longrightarrow> mu w1 = mu w \<and> consistent (balance w1) g'"
      by auto
    show ?thesis unfolding lock_inv_def gs' list_all_length
    proof (intro conjI allI impI)
      fix n assume "n < length (?gs[k := g'])"
      then show "lock_guarded (?gs[k := g'] ! n)" using l' lg by (cases "n = k") auto
    next
      fix i assume i: "i < length (?gs[k := g'])" and ic: "in_cs (?gs[k := g'] ! i)"
      then have ik: "i = k" using u by (cases "i = k") auto
      with i ic i' m show "mu w1" by auto
      from ik i ic i' show "consistent (balance w1) (?gs[k := g'] ! i)" by auto
      fix j assume "j < length (?gs[k := g'])" "in_cs (?gs[k := g'] ! j)"
      then have "j = k" using u by (cases "j = k") auto
      with ik show "j = i" by simp
    qed
  next
    case False
    from lock_step_outside [OF s lg [OF k] False]
    have nm: "\<not> mu w" and m1: "mu w1" and i': "in_cs g'"
      and c': "consistent (balance w1) g'" and l': "lock_guarded g'" by auto
    from nm cs have out: "\<And>j. j < length ?gs \<Longrightarrow> \<not> in_cs (?gs ! j)" by blast
    show ?thesis unfolding lock_inv_def gs' list_all_length
    proof (intro conjI allI impI)
      fix n assume "n < length (?gs[k := g'])"
      then show "lock_guarded (?gs[k := g'] ! n)" using l' lg by (cases "n = k") auto
    next
      fix i assume i: "i < length (?gs[k := g'])" and ic: "in_cs (?gs[k := g'] ! i)"
      then have ik: "i = k" using out by (cases "i = k") auto
      show "mu w1" by (rule m1)
      from ik i c' show "consistent (balance w1) (?gs[k := g'] ! i)" by auto
      fix j assume "j < length (?gs[k := g'])" "in_cs (?gs[k := g'] ! j)"
      then have "j = k" using out by (cases "j = k") auto
      with ik show "j = i" by simp
    qed
  qed
qed

lemma lock_guarded_start_inv:
  assumes "lock_guarded_start w"
  shows "lock_inv w"
proof -
  have r: "request g \<Longrightarrow> lock_guarded g \<and> \<not> in_cs g" for g by (cases g) auto
  from assms have "\<And>i. i < length (goroutines w) \<Longrightarrow> request (goroutines w ! i)"
    by (simp add: lock_guarded_start_def list_all_length)
  with r show ?thesis by (auto simp: lock_inv_def list_all_length)
qed

lemma lock_inv_run: "lock_inv w \<Longrightarrow> run sched w = Some w' \<Longrightarrow> lock_inv w'"
  by (rule run_invariant [where I = lock_inv]) (auto intro: lock_inv_step)

lemma lock_inv_consistent:
  "lock_inv w \<Longrightarrow> k < length (goroutines w) \<Longrightarrow>
   lock_guarded (goroutines w ! k) \<and>
   (in_cs (goroutines w ! k) \<longrightarrow> consistent (balance w) (goroutines w ! k))"
  by (simp add: lock_inv_def list_all_length)

lemma consistent_outside: "\<not> in_cs g \<Longrightarrow> consistent b g"
  by (cases g) auto

lemma lock_inv_all_consistent:
  assumes "lock_inv w"
  shows "list_all (consistent (balance w)) (goroutines w)"
  unfolding list_all_length
proof (intro allI impI)
  fix k assume "k < length (goroutines w)"
  from lock_inv_consistent [OF assms this] consistent_outside
  show "consistent (balance w) (goroutines w ! k)" by blast
qed

subsection \<open>The balance accounts for every commit\<close>

lemma contrib_Returned: "contrib (Returned r a) = contrib (Unlock r a)"
  by (cases r) simp_all

lemma contrib_goroutine_step:
  assumes "goroutine_step g w = Some (g', w1)" "lock_guarded g"
    "in_cs g \<longrightarrow> consistent (balance w) g"
  shows "balance w1 - contrib g' = balance w - contrib g"
  using assms by (cases g) (auto simp: contrib_Returned split: if_splits)

lemma settled_step:
  assumes inv: "lock_inv w" and st: "step a w = Some w'"
  shows "balance w' - sum_list (map contrib (goroutines w')) =
         balance w - sum_list (map contrib (goroutines w))"
proof (cases a)
  case Worker
  with st show ?thesis by (auto split: worker.splits)
next
  case (Goroutine k)
  from st have "step (Goroutine k) w = Some w'" unfolding Goroutine .
  then obtain g' w1 where k: "k < length (goroutines w)"
    and s: "goroutine_step (goroutines w ! k) w = Some (g', w1)"
    and w': "w' = w1\<lparr>goroutines := (goroutines w)[k := g']\<rparr>"
    by (rule step_Goroutine_Some)
  from lock_inv_consistent [OF inv k] contrib_goroutine_step [OF s]
  have "balance w1 - contrib g' = balance w - contrib (goroutines w ! k)" by blast
  then show ?thesis using k by (simp add: w' sum_list_map_update algebra_simps)
qed

lemma settled_run:
  assumes "lock_inv w0" "run sched w0 = Some w"
  shows "balance w - sum_list (map contrib (goroutines w)) =
         balance w0 - sum_list (map contrib (goroutines w0))"
proof -
  let ?I = "\<lambda>w. lock_inv w \<and> balance w - sum_list (map contrib (goroutines w)) =
                 balance w0 - sum_list (map contrib (goroutines w0))"
  have "?I w"
  proof (rule run_invariant [where I = ?I, OF _ _ assms(2)])
    fix a w w' assume "?I w" "step a w = Some w'"
    then show "?I w'" using lock_inv_step settled_step by metis
  next
    from assms(1) show "?I w0" by simp
  qed
  then show ?thesis by simp
qed

lemma contrib_request: "list_all request gs \<Longrightarrow> sum_list (map contrib gs) = 0"
proof (induction gs)
  case Nil
  show ?case by simp
next
  case (Cons g gs)
  then show ?case by (cases g) auto
qed

lemma contrib_returned:
  "list_all returned gs \<Longrightarrow>
   sum_list (map contrib gs) = sum_list (map deposited gs) - sum_list (map withdrawn gs)"
proof (induction gs)
  case Nil
  show ?case by simp
next
  case (Cons g gs)
  then have "contrib g = deposited g - withdrawn g"
  proof (cases g)
    case (Returned r a)
    then show ?thesis by (cases r) auto
  qed auto
  with Cons show ?case by simp
qed

lemma lock_guarded_final_balance:
  assumes "lock_guarded_start w0" "run sched w0 = Some w" "all_returned w"
  shows "balance w = balance w0 + committed_deposits w - committed_withdrawals w"
proof -
  from assms(1) have "lock_inv w0" by (rule lock_guarded_start_inv)
  from settled_run [OF this assms(2)]
  have "balance w - sum_list (map contrib (goroutines w)) =
        balance w0 - sum_list (map contrib (goroutines w0))" .
  moreover from assms(1) have "sum_list (map contrib (goroutines w0)) = 0"
    by (simp add: lock_guarded_start_def contrib_request)
  moreover from assms(3) have "sum_list (map contrib (goroutines w)) =
      committed_deposits w - committed_withdrawals w"
    by (simp add: all_returned_def contrib_returned committed_deposits_def
        committed_withdrawals_def)
  ultimately show ?thesis by (simp add: algebra_simps)
qed

subsection \<open>The balance stays non-negative\<close>

lemma deposit_due_nonneg: "positive g \<Longrightarrow> 0 \<le> deposit_due g"
  by (cases g) (auto simp: word_sless_alt)

lemma safe_goroutine_step:
  assumes s: "goroutine_step g w = Some (g', w1)"
    and lg: "lock_guarded g"
    and c: "in_cs g \<longrightarrow> consistent (balance w) g"
    and p: "positive g"
    and b: "0 \<le> sint (balance w)" "sint (balance w) + deposit_due g < 2 ^ 63"
  shows "positive g'" and "0 \<le> sint (balance w1)"
    and "sint (balance w1) + deposit_due g' \<le> sint (balance w) + deposit_due g"
proof -
  have "positive g' \<and> 0 \<le> sint (balance w1) \<and>
        sint (balance w1) + deposit_due g' \<le> sint (balance w) + deposit_due g"
  proof (cases g)
    case (MutexStore a v)
    with c p b have "sint (v - a) = sint v - sint a" "v = balance w" "0 < sint a"
      "sint a \<le> sint v"
      by (auto simp: word_sle_eq word_sless_alt intro: sint_sub_exact)
    with s b MutexStore show ?thesis by (auto simp: word_sless_alt)
  next
    case (DepositStore a v)
    with c p b have "sint (v + a) = sint v + sint a" "v = balance w" "0 < sint a"
      by (auto simp: word_sless_alt intro: sint_add_exact)
    with s b DepositStore show ?thesis by (auto simp: word_sless_alt)
  qed (use s lg p b in \<open>auto split: if_splits\<close>)
  then show "positive g'" and "0 \<le> sint (balance w1)"
    and "sint (balance w1) + deposit_due g' \<le> sint (balance w) + deposit_due g" by auto
qed

lemma safe_step:
  assumes inv: "lock_inv w" and sf: "safe w" and st: "step a w = Some w'"
  shows "safe w'"
proof (cases a)
  case Worker
  with st sf show ?thesis by (auto simp: safe_def split: worker.splits)
next
  case (Goroutine k)
  from st have "step (Goroutine k) w = Some w'" unfolding Goroutine .
  then obtain g' w1 where k: "k < length (goroutines w)"
    and s: "goroutine_step (goroutines w ! k) w = Some (g', w1)"
    and w': "w' = w1\<lparr>goroutines := (goroutines w)[k := g']\<rparr>"
    by (rule step_Goroutine_Some)
  let ?gs = "goroutines w"
  from sf have b0: "0 \<le> sint (balance w)"
    and b1: "sint (balance w) + sum_list (map deposit_due ?gs) < 2 ^ 63"
    and pos: "list_all positive ?gs" by (auto simp: safe_def)
  from pos k have pk: "positive (?gs ! k)" by (simp add: list_all_length)
  from pos have "list_all (\<lambda>g. 0 \<le> deposit_due g) ?gs"
    by (auto simp: list_all_iff intro: deposit_due_nonneg)
  from nth_le_sum_list [OF this k] b1
  have b2: "sint (balance w) + deposit_due (?gs ! k) < 2 ^ 63" by linarith
  from lock_inv_consistent [OF inv k]
  have lg: "lock_guarded (?gs ! k)"
    and c: "in_cs (?gs ! k) \<longrightarrow> consistent (balance w) (?gs ! k)" by simp_all
  note r = safe_goroutine_step [OF s lg c pk b0 b2]
  have "list_all positive (?gs[k := g'])"
    using pos r(1) by (auto simp: list_all_iff dest: set_update_subset_insert [THEN subsetD])
  moreover have "sint (balance w1) + sum_list (map deposit_due (?gs[k := g'])) < 2 ^ 63"
    using r(3) b1 k by (simp add: sum_list_map_update)
  ultimately show ?thesis using r(2) by (simp add: safe_def w')
qed

lemma safe_run:
  assumes "lock_inv w0" "safe w0" "run sched w0 = Some w"
  shows "safe w"
proof -
  let ?I = "\<lambda>w. lock_inv w \<and> safe w"
  have "?I w"
  proof (rule run_invariant [where I = ?I, OF _ _ assms(3)])
    fix a w w' assume "?I w" "step a w = Some w'"
    then show "?I w'" using lock_inv_step safe_step by blast
  next
    from assms(1,2) show "?I w0" by simp
  qed
  then show ?thesis by simp
qed

section \<open>The two withdrawals of \<open>testMutex\<close>\<close>

lemma testMutex_closed0:
  "list_all (\<lambda>t. case step (Goroutine 0) (testMutex_world l t) of
                    None \<Rightarrow> True | Some w' \<Rightarrow> w' \<in> testMutex_worlds l) testMutex_states"
  by (simp add: testMutex_states_def testMutex_world_def testMutex_worlds_def word_sle_eq)

lemma testMutex_closed1:
  "list_all (\<lambda>t. case step (Goroutine 1) (testMutex_world l t) of
                    None \<Rightarrow> True | Some w' \<Rightarrow> w' \<in> testMutex_worlds l) testMutex_states"
  by (simp add: testMutex_states_def testMutex_world_def testMutex_worlds_def word_sle_eq)

lemma testMutex_shape:
  "list_all (\<lambda>t. length (goroutines (testMutex_world l t)) = 2 \<and>
                  worker (testMutex_world l t) = NotRunning) testMutex_states"
  by (simp add: testMutex_states_def testMutex_world_def)

lemma testMutex_worlds_step:
  assumes "w \<in> testMutex_worlds l" "step a w = Some w'"
  shows "w' \<in> testMutex_worlds l"
proof -
  from assms(1) obtain t where t: "t \<in> set testMutex_states" and w: "w = testMutex_world l t"
    by (auto simp: testMutex_worlds_def)
  from t testMutex_shape [of l] have len: "length (goroutines w) = 2"
    and nr: "worker w = NotRunning"
    by (auto simp: list_all_iff w)
  show ?thesis
  proof (cases a)
    case Worker
    with assms(2) nr show ?thesis by simp
  next
    case (Goroutine k)
    with assms(2) len have "k = 0 \<or> k = 1" by (auto split: if_splits)
    then show ?thesis
    proof
      assume "k = 0"
      with t testMutex_closed0 [of l] assms(2) Goroutine w show ?thesis
        by (auto simp: list_all_iff split: option.splits)
    next
      assume "k = 1"
      with t testMutex_closed1 [of l] assms(2) Goroutine w show ?thesis
        by (auto simp: list_all_iff split: option.splits)
    qed
  qed
qed

lemma testMutex_run:
  assumes "run sched (testMutex_start l) = Some w"
  shows "w \<in> testMutex_worlds l"
proof (rule run_invariant [where I = "\<lambda>w. w \<in> testMutex_worlds l", OF _ _ assms])
  fix a w w' assume "w \<in> testMutex_worlds l" "step a w = Some w'"
  then show "w' \<in> testMutex_worlds l" by (rule testMutex_worlds_step)
next
  show "testMutex_start l \<in> testMutex_worlds l"
    by (simp add: testMutex_worlds_def testMutex_states_def testMutex_world_def
        testMutex_start_def)
qed

lemma testMutex_nonneg:
  "list_all (\<lambda>t. 0 \<le>s balance (testMutex_world l t)) testMutex_states"
  by (simp add: testMutex_states_def testMutex_world_def word_sle_eq)

lemma testMutex_final:
  "list_all (\<lambda>t. all_returned (testMutex_world l t) \<longrightarrow>
       balance (testMutex_world l t) = 300 \<and>
       goroutines (testMutex_world l t) =
         [Returned WithdrawalOK 700, Returned InsufficientFunds 500] \<or>
       balance (testMutex_world l t) = 500 \<and>
       goroutines (testMutex_world l t) =
         [Returned InsufficientFunds 700, Returned WithdrawalOK 500]) testMutex_states"
  by (simp add: testMutex_states_def testMutex_world_def all_returned_def)

lemma testMutex_progress:
  "list_all (\<lambda>t. all_returned (testMutex_world l t) \<or>
       step (Goroutine 0) (testMutex_world l t) \<noteq> None \<or>
       step (Goroutine 1) (testMutex_world l t) \<noteq> None) testMutex_states"
  by (simp add: testMutex_states_def testMutex_world_def all_returned_def)

section \<open>The channel and the frame of each executor\<close>

lemma goroutine_step_not_send:
  "goroutine_step g w = Some (g', w1) \<Longrightarrow> \<not> is_send g \<Longrightarrow>
   ledger w1 = ledger w \<and> worker w1 = worker w"
  by (cases g) (auto split: if_splits)

lemma step_frame:
  assumes "step a w = Some w'"
  shows "if serializing a w then balance w' = balance w \<and> mu w' = mu w
         else ledger w' = ledger w \<and> worker w' = worker w"
proof (cases a)
  case Worker
  with assms show ?thesis by (auto split: worker.splits)
next
  case (Goroutine k)
  from assms have "step (Goroutine k) w = Some w'" unfolding Goroutine .
  then obtain g' w1 where k: "k < length (goroutines w)"
    and s: "goroutine_step (goroutines w ! k) w = Some (g', w1)"
    and w': "w' = w1\<lparr>goroutines := (goroutines w)[k := g']\<rparr>"
    by (rule step_Goroutine_Some)
  show ?thesis
  proof (cases "is_send (goroutines w ! k)")
    case True
    then obtain tx where "goroutines w ! k = Send tx" by (cases "goroutines w ! k") auto
    with s have "w1 = w\<lparr>worker := Processing tx\<rparr>" by (auto split: if_splits)
    with True k w' Goroutine show ?thesis by simp
  next
    case False
    with goroutine_step_not_send [OF s] k w' Goroutine show ?thesis by simp
  qed
qed

lemma step_ledger:
  assumes "step a w = Some w'"
  shows "snd (transactionProcessor (ledger w') (in_hand (worker w'))) =
         snd (transactionProcessor (ledger w) (in_hand (worker w) @ sent_by a w))"
proof (cases a)
  case Worker
  with assms show ?thesis by (auto simp: split_beta split: worker.splits)
next
  case (Goroutine k)
  from assms have "step (Goroutine k) w = Some w'" unfolding Goroutine .
  then obtain g' w1 where k: "k < length (goroutines w)"
    and s: "goroutine_step (goroutines w ! k) w = Some (g', w1)"
    and w': "w' = w1\<lparr>goroutines := (goroutines w)[k := g']\<rparr>"
    by (rule step_Goroutine_Some)
  show ?thesis
  proof (cases "is_send (goroutines w ! k)")
    case True
    then obtain tx where g: "goroutines w ! k = Send tx" by (cases "goroutines w ! k") auto
    with s have "w1 = w\<lparr>worker := Processing tx\<rparr>" "worker w = Receiving"
      by (auto split: if_splits)
    with g k w' Goroutine show ?thesis by simp
  next
    case False
    then have "sent_by a w = []" using Goroutine by (cases "goroutines w ! k") auto
    with goroutine_step_not_send [OF s False] w' show ?thesis by simp
  qed
qed

text \<open>
  The worker goroutine refines the loop: after any schedule, the ledger, once the
  transaction in the worker's hands is applied, is the loop's result on the transactions
  in the order of their hand-offs.
\<close>

lemma run_ledger:
  assumes "run sched w = Some w'"
  shows "snd (transactionProcessor (ledger w') (in_hand (worker w'))) =
         snd (transactionProcessor (ledger w) (in_hand (worker w) @ handoffs sched w))"
  using assms
proof (induction sched arbitrary: w)
  case Nil
  then show ?case by simp
next
  case (Cons a sched)
  from Cons.prems obtain w1 where s: "step a w = Some w1" and r: "run sched w1 = Some w'"
    by (rule run_Cons_Some)
  have "snd (transactionProcessor (ledger w') (in_hand (worker w'))) =
        snd (transactionProcessor (ledger w1) (in_hand (worker w1) @ handoffs sched w1))"
    using r by (rule Cons.IH)
  also have "\<dots> = snd (transactionProcessor
        (snd (transactionProcessor (ledger w1) (in_hand (worker w1)))) (handoffs sched w1))"
    by (rule transactionProcessor_append)
  also have "\<dots> = snd (transactionProcessor
        (snd (transactionProcessor (ledger w) (in_hand (worker w) @ sent_by a w)))
        (handoffs sched w1))"
    by (simp only: step_ledger [OF s])
  also have "\<dots> = snd (transactionProcessor (ledger w)
        ((in_hand (worker w) @ sent_by a w) @ handoffs sched w1))"
    by (rule transactionProcessor_append [symmetric])
  finally show ?case using s by simp
qed

section \<open>The Unsynchronized Executor\<close>

text \<open>
  The race window of \<open>withdrawRace\<close>: both goroutines pass the check at line 31 before
  either writes at line 34. Both withdrawals then report success, and the balance is
  negative when the writes do not overlap, or has lost one withdrawal when they do.
\<close>

lemma withdrawRace_both_succeed:
  "run [Goroutine 0, Goroutine 1, Goroutine 0, Goroutine 0, Goroutine 1, Goroutine 1]
     (testRaceCondition_start l) =
   Some \<lparr>balance = - 200, mu = False, ledger = l, worker = NotRunning,
         goroutines = [Returned WithdrawalOK 700, Returned WithdrawalOK 500]\<rparr>"
  by (simp add: testRaceCondition_start_def word_sle_eq)

lemma withdrawRace_lost_update:
  "run [Goroutine 0, Goroutine 1, Goroutine 0, Goroutine 1, Goroutine 0, Goroutine 1]
     (testRaceCondition_start l) =
   Some \<lparr>balance = 500, mu = False, ledger = l, worker = NotRunning,
         goroutines = [Returned WithdrawalOK 700, Returned WithdrawalOK 500]\<rparr>"
  by (simp add: testRaceCondition_start_def word_sle_eq)

section \<open>The schedules of \<open>testChannelBased\<close> and the bank side\<close>


text \<open>No goroutine writes the ledger; the worker keeps its total.\<close>

lemma goroutine_step_ledger_total:
  "goroutine_step g w = Some (g', w1) \<Longrightarrow> ledger w1 = ledger w"
  by (cases g) (auto split: if_splits)

lemma step_ledger_total:
  assumes "step a w = Some w'"
  shows "ledger_total (ledger w') = ledger_total (ledger w)"
proof (cases a)
  case Worker
  with assms show ?thesis by (auto simp: total_processTx split: worker.splits)
next
  case (Goroutine k)
  from assms have "step (Goroutine k) w = Some w'" unfolding Goroutine .
  then obtain g' w1 where s: "goroutine_step (goroutines w ! k) w = Some (g', w1)"
    and w': "w' = w1\<lparr>goroutines := (goroutines w)[k := g']\<rparr>"
    by (rule step_Goroutine_Some)
  from goroutine_step_ledger_total [OF s] w' show ?thesis by simp
qed

lemma run_ledger_total:
  assumes "run sched w = Some w'"
  shows "ledger_total (ledger w') = ledger_total (ledger w)"
proof (rule run_invariant [where I = "\<lambda>u. ledger_total (ledger u) = ledger_total (ledger w)", OF _ _ assms])
  fix a u u' assume "ledger_total (ledger u) = ledger_total (ledger w)" "step a u = Some u'"
  then show "ledger_total (ledger u') = ledger_total (ledger w)"
    using step_ledger_total by simp
next
  show "ledger_total (ledger w) = ledger_total (ledger w)" by simp
qed

text \<open>
  The transactions handed off and those still with their producers are, together, the
  transactions submitted.
\<close>

lemma unsent_update:
  assumes "k < length gs"
  shows "mset (concat (map unsent (gs[k := g]))) + mset (unsent (gs ! k)) =
         mset (concat (map unsent gs)) + mset (unsent g)"
  using assms
proof (induction gs arbitrary: k)
  case Nil
  then show ?case by simp
next
  case (Cons x gs)
  then show ?case by (cases k) (auto simp: ac_simps)
qed

lemma goroutine_step_unsent:
  assumes "goroutine_step g w = Some (g', w1)"
  shows "unsent g' = []"
  using assms by (cases g) (auto split: if_splits)

lemma step_unsent:
  assumes "step a w = Some w'"
  shows "mset (sent_by a w) + mset (concat (map unsent (goroutines w'))) =
         mset (concat (map unsent (goroutines w)))"
proof (cases a)
  case Worker
  with assms show ?thesis by (auto split: worker.splits)
next
  case (Goroutine k)
  from assms have "step (Goroutine k) w = Some w'" unfolding Goroutine .
  then obtain g' w1 where k: "k < length (goroutines w)"
    and s: "goroutine_step (goroutines w ! k) w = Some (g', w1)"
    and w': "w' = w1\<lparr>goroutines := (goroutines w)[k := g']\<rparr>"
    by (rule step_Goroutine_Some)
  have "sent_by a w = unsent (goroutines w ! k)"
    using k Goroutine by (cases "goroutines w ! k") auto
  with unsent_update [OF k, of g'] goroutine_step_unsent [OF s] w'
  show ?thesis by (simp add: ac_simps)
qed

lemma run_unsent:
  assumes "run sched w = Some w'"
  shows "mset (handoffs sched w) + mset (concat (map unsent (goroutines w'))) =
         mset (concat (map unsent (goroutines w)))"
  using assms
proof (induction sched arbitrary: w)
  case Nil
  then show ?case by simp
next
  case (Cons a sched)
  from Cons.prems obtain w1 where s: "step a w = Some w1" and r: "run sched w1 = Some w'"
    by (rule run_Cons_Some)
  have "mset (handoffs (a # sched) w) + mset (concat (map unsent (goroutines w'))) =
        mset (sent_by a w) +
          (mset (handoffs sched w1) + mset (concat (map unsent (goroutines w'))))"
    using s by simp
  also have "\<dots> = mset (sent_by a w) + mset (concat (map unsent (goroutines w1)))"
    by (simp only: Cons.IH [OF r])
  also have "\<dots> = mset (concat (map unsent (goroutines w)))"
    by (rule step_unsent [OF s])
  finally show ?case .
qed

lemma returned_unsent: "list_all returned gs \<Longrightarrow> concat (map unsent gs) = []"
proof (induction gs)
  case Nil
  show ?case by simp
next
  case (Cons g gs)
  then show ?case by (cases g) auto
qed

lemma testChannelBased_handoffs:
  assumes "run sched (testChannelBased_start b) = Some w" "all_returned w"
  shows "mset (handoffs sched (testChannelBased_start b)) = mset submitted"
proof -
  from assms(2) have "concat (map unsent (goroutines w)) = []"
    unfolding all_returned_def by (rule returned_unsent)
  with run_unsent [OF assms(1)]
  have "mset (handoffs sched (testChannelBased_start b)) =
        mset (concat (map unsent (goroutines (testChannelBased_start b))))"
    by (simp only: mset.simps add_0_right)
  then show ?thesis by (simp add: testChannelBased_start_def submitted_def)
qed

subsection \<open>Deposits and the bank side\<close>


section \<open>The claims\<close>

text \<open>
  C1. Conservation. In the Serializing Executor the sum
  \<open>CustomerBalance + BankBalance\<close> is unchanged by every processed transaction, committed
  or rejected, and so after any sequence of transactions it has its initial value. In the
  Lock-Guarded Executor, for any set of concurrently issued withdrawals and deposits and
  any schedule, once all calls have returned the balance is the initial balance plus the
  committed deposit amounts minus the committed withdrawal amounts. (The sums are Go's:
  64-bit, wrapping.)
\<close>

theorem conservation_invariant:
  "ledger_total (snd (processTx l tx)) = ledger_total l \<and>
   ledger_total (snd (transactionProcessor l txs)) = ledger_total l \<and>
   (lock_guarded_start v \<and> run sched v = Some w \<and> all_returned w \<longrightarrow>
      balance w = balance v + committed_deposits w - committed_withdrawals w)"
  using lock_guarded_final_balance [of v sched w]
  by (simp add: total_processTx total_transactionProcessor)

theorem conservation_invariant_witness:
  "lock_guarded_start (testMutex_bonus_start 300 testChannelBased_ledger) \<and>
   run [Goroutine 1, Goroutine 1, Goroutine 1, Goroutine 1,
        Goroutine 0, Goroutine 0, Goroutine 0, Goroutine 0, Goroutine 0,
        Goroutine 2, Goroutine 2, Goroutine 2, Goroutine 2]
     (testMutex_bonus_start 300 testChannelBased_ledger) =
     Some \<lparr>balance = 1100, mu = False, ledger = testChannelBased_ledger, worker = NotRunning,
           goroutines = [Returned WithdrawalOK 400, Returned DepositOK 1000,
                         Returned DepositOK 200]\<rparr> \<and>
   all_returned \<lparr>balance = 1100, mu = False, ledger = testChannelBased_ledger,
           worker = NotRunning,
           goroutines = [Returned WithdrawalOK 400, Returned DepositOK 1000,
                         Returned DepositOK 200]\<rparr> \<and>
   (1100 :: go_int) = 300 + (1000 + 200) - 400 \<and>
   ledger_total (snd (transactionProcessor testChannelBased_ledger submitted)) = 6000"
proof -
  let ?v = "testMutex_bonus_start 300 testChannelBased_ledger"
  let ?s = "[Goroutine 1, Goroutine 1, Goroutine 1, Goroutine 1,
        Goroutine 0, Goroutine 0, Goroutine 0, Goroutine 0, Goroutine 0,
        Goroutine 2, Goroutine 2, Goroutine 2, Goroutine 2]"
  let ?w = "\<lparr>balance = 1100, mu = False, ledger = testChannelBased_ledger,
           worker = NotRunning,
           goroutines = [Returned WithdrawalOK 400, Returned DepositOK 1000,
                         Returned DepositOK 200]\<rparr>"
  have h1: "lock_guarded_start ?v"
    by (simp add: lock_guarded_start_def testMutex_bonus_start_def)
  have h2: "run ?s ?v = Some ?w"
    by (simp add: testMutex_bonus_start_def word_sle_eq)
  have h3: "all_returned ?w" by (simp add: all_returned_def)
  from conservation_invariant
    [where l = testChannelBased_ledger and txs = submitted and v = ?v and sched = ?s and w = ?w]
    h1 h2 h3
  show ?thesis
    by (simp add: committed_deposits_def committed_withdrawals_def testMutex_bonus_start_def
        ledger_total_def testChannelBased_ledger_def)
qed

text \<open>
  C2, as stated, fails: Go's \<open>int\<close> wraps, and no executor checks a deposit for
  overflow. From the program's own ledger (customer 1000) a deposit of the positive amount
  9223372036854775000 leaves a negative customer balance, and so does \<open>deposit\<close> on
  \<open>balance = 1000\<close>.
\<close>

theorem deposit_overflow_negative:
  "0 \<le>s CustomerBalance testChannelBased_ledger \<and>
   0 <s Amount (tx_salary\<lparr>Amount := 9223372036854775000\<rparr>) \<and>
   CustomerBalance (snd (processTx testChannelBased_ledger
      (tx_salary\<lparr>Amount := 9223372036854775000\<rparr>))) <s 0 \<and>
   run [Goroutine 0, Goroutine 0, Goroutine 0, Goroutine 0]
     \<lparr>balance = 1000, mu = False, ledger = testChannelBased_ledger, worker = NotRunning,
      goroutines = [DepositLock 9223372036854775000]\<rparr> =
     Some \<lparr>balance = - 9223372036854775616, mu = False, ledger = testChannelBased_ledger,
           worker = NotRunning,
           goroutines = [Returned DepositOK 9223372036854775000]\<rparr> \<and>
   (- 9223372036854775616 :: go_int) <s 0"
  by (simp add: testChannelBased_ledger_def tx_salary_def processTx_def word_sle_eq
      word_sless_alt)

text \<open>
  C2, amended. Non-negativity, as long as no deposit overflows. Start from a
  non-negative customer balance, with every amount positive and with the initial balance
  plus all the deposit amounts below \<open>2^63\<close>. Then in the Serializing Executor the customer
  balance is non-negative after every prefix of the transactions, and in the Lock-Guarded
  Executor \<open>balance\<close> is non-negative after every schedule. A withdrawal is committed only
  when \<open>balance >= amount\<close>; under the lock the check still holds, and the value read is
  still the balance, when the new balance is written.
\<close>

theorem non_negativity:
  "(0 \<le>s CustomerBalance l \<and> list_all (\<lambda>tx. 0 <s Amount tx) txs \<and>
    sint (CustomerBalance l) + deposits_total txs < 2 ^ 63 \<longrightarrow>
      0 \<le>s CustomerBalance (snd (transactionProcessor l (take n txs)))) \<and>
   (fst (processTx l tx) = WithdrawalOK \<longrightarrow> Amount tx \<le>s CustomerBalance l) \<and>
   (lock_guarded_start v \<and> 0 \<le>s balance v \<and> list_all positive (goroutines v) \<and>
    sint (balance v) + sum_list (map deposit_due (goroutines v)) < 2 ^ 63 \<and>
    run sched v = Some w \<longrightarrow>
      0 \<le>s balance w \<and> list_all (consistent (balance w)) (goroutines w))"
proof (intro conjI impI)
  assume "0 \<le>s CustomerBalance l \<and> list_all (\<lambda>tx. 0 <s Amount tx) txs \<and>
    sint (CustomerBalance l) + deposits_total txs < 2 ^ 63"
  then show "0 \<le>s CustomerBalance (snd (transactionProcessor l (take n txs)))"
    using transactionProcessor_prefix_nonneg [of l txs n] by (simp add: word_sle_eq)
next
  assume "fst (processTx l tx) = WithdrawalOK"
  then show "Amount tx \<le>s CustomerBalance l"
    by (simp add: processTx_def split: if_splits)
next
  assume a: "lock_guarded_start v \<and> 0 \<le>s balance v \<and> list_all positive (goroutines v) \<and>
    sint (balance v) + sum_list (map deposit_due (goroutines v)) < 2 ^ 63 \<and>
    run sched v = Some w"
  then have inv: "lock_inv v" and sf: "safe v" and r: "run sched v = Some w"
    by (auto simp: safe_def word_sle_eq intro: lock_guarded_start_inv)
  from safe_run [OF inv sf r] show "0 \<le>s balance w" by (simp add: safe_def word_sle_eq)
  from lock_inv_run [OF inv r] show "list_all (consistent (balance w)) (goroutines w)"
    by (rule lock_inv_all_consistent)
qed

theorem non_negativity_witness:
  "0 \<le>s CustomerBalance testChannelBased_ledger \<and>
   list_all (\<lambda>tx. 0 <s Amount tx) submitted \<and>
   sint (CustomerBalance testChannelBased_ledger) + deposits_total submitted < 2 ^ 63 \<and>
   0 \<le>s CustomerBalance (snd (transactionProcessor testChannelBased_ledger (take 3 submitted))) \<and>
   fst (processTx testChannelBased_ledger tx_phone) = WithdrawalOK \<and>
   Amount tx_phone \<le>s CustomerBalance testChannelBased_ledger \<and>
   lock_guarded_start (testMutex_bonus_start 300 testChannelBased_ledger) \<and>
   0 \<le>s balance (testMutex_bonus_start 300 testChannelBased_ledger) \<and>
   list_all positive (goroutines (testMutex_bonus_start 300 testChannelBased_ledger)) \<and>
   sint (balance (testMutex_bonus_start 300 testChannelBased_ledger)) +
     sum_list (map deposit_due (goroutines (testMutex_bonus_start 300 testChannelBased_ledger)))
     < 2 ^ 63 \<and>
   run [Goroutine 1, Goroutine 1, Goroutine 1, Goroutine 1, Goroutine 0, Goroutine 0, Goroutine 0]
     (testMutex_bonus_start 300 testChannelBased_ledger) =
     Some \<lparr>balance = 1300, mu = True, ledger = testChannelBased_ledger, worker = NotRunning,
           goroutines = [MutexStore 400 1300, Returned DepositOK 1000, DepositLock 200]\<rparr> \<and>
   (0 :: go_int) \<le>s 1300 \<and>
   list_all (consistent 1300) [MutexStore 400 1300, Returned DepositOK 1000, DepositLock 200]"
proof -
  let ?l = testChannelBased_ledger
  let ?v = "testMutex_bonus_start 300 testChannelBased_ledger"
  let ?s = "[Goroutine 1, Goroutine 1, Goroutine 1, Goroutine 1, Goroutine 0, Goroutine 0,
             Goroutine 0]"
  let ?w = "\<lparr>balance = 1300, mu = True, ledger = testChannelBased_ledger, worker = NotRunning,
           goroutines = [MutexStore 400 1300, Returned DepositOK 1000, DepositLock 200]\<rparr>"
  have h1: "0 \<le>s CustomerBalance ?l \<and> list_all (\<lambda>tx. 0 <s Amount tx) submitted \<and>
      sint (CustomerBalance ?l) + deposits_total submitted < 2 ^ 63"
    by (simp add: testChannelBased_ledger_def submitted_def tx_phone_def tx_atm_def
        tx_online_def tx_salary_def word_sle_eq word_sless_alt)
  have h2: "fst (processTx ?l tx_phone) = WithdrawalOK"
    by (simp add: testChannelBased_ledger_def tx_phone_def processTx_def word_sle_eq)
  have h3: "lock_guarded_start ?v \<and> 0 \<le>s balance ?v \<and> list_all positive (goroutines ?v) \<and>
      sint (balance ?v) + sum_list (map deposit_due (goroutines ?v)) < 2 ^ 63"
    by (simp add: testMutex_bonus_start_def lock_guarded_start_def word_sle_eq word_sless_alt)
  have h4: "run ?s ?v = Some ?w"
    by (simp add: testMutex_bonus_start_def word_sle_eq)
  from non_negativity
    [where l = ?l and txs = submitted and n = 3 and tx = tx_phone and v = ?v and sched = ?s
      and w = ?w]
    h1 h2 h3 h4
  show ?thesis by simp
qed

text \<open>
  C3. At most one winner. From \<open>balance = 1000\<close>, with \<open>withdrawMutex(700)\<close> and
  \<open>withdrawMutex(500)\<close> running concurrently, under every schedule: the balance is never
  negative; the schedule has at most 10 steps; unless both calls have returned, one of
  them can move (there is no deadlock); and when both have returned exactly one withdrawal
  has succeeded, with balance 300 if it was the 700 and 500 if it was the 500.
\<close>

theorem at_most_one_winner:
  assumes "run sched (testMutex_start l) = Some w"
  shows "0 \<le>s balance w \<and> length sched \<le> 10 \<and>
    (all_returned w \<or> step (Goroutine 0) w \<noteq> None \<or> step (Goroutine 1) w \<noteq> None) \<and>
    (all_returned w \<longrightarrow>
       balance w = 300 \<and>
       goroutines w = [Returned WithdrawalOK 700, Returned InsufficientFunds 500] \<or>
       balance w = 500 \<and>
       goroutines w = [Returned InsufficientFunds 700, Returned WithdrawalOK 500])"
proof -
  from assms have "w \<in> testMutex_worlds l" by (rule testMutex_run)
  then obtain t where t: "t \<in> set testMutex_states" and w: "w = testMutex_world l t"
    by (auto simp: testMutex_worlds_def)
  from run_work [OF assms] have "length sched \<le> work (testMutex_start l)" by simp
  then have "length sched \<le> 10" by (simp add: work_def testMutex_start_def)
  moreover from t testMutex_nonneg [of l] have "0 \<le>s balance w"
    by (simp add: list_all_iff w)
  moreover from t testMutex_progress [of l]
  have "all_returned w \<or> step (Goroutine 0) w \<noteq> None \<or> step (Goroutine 1) w \<noteq> None"
    unfolding list_all_iff w by blast
  moreover from t testMutex_final [of l]
  have "all_returned w \<longrightarrow>
       balance w = 300 \<and>
       goroutines w = [Returned WithdrawalOK 700, Returned InsufficientFunds 500] \<or>
       balance w = 500 \<and>
       goroutines w = [Returned InsufficientFunds 700, Returned WithdrawalOK 500]"
    unfolding list_all_iff w by blast
  ultimately show ?thesis by blast
qed

theorem at_most_one_winner_witness:
  "run [Goroutine 1, Goroutine 1, Goroutine 1, Goroutine 1, Goroutine 1,
        Goroutine 0, Goroutine 0, Goroutine 0]
     (testMutex_start testChannelBased_ledger) =
     Some \<lparr>balance = 500, mu = False, ledger = testChannelBased_ledger, worker = NotRunning,
           goroutines = [Returned InsufficientFunds 700, Returned WithdrawalOK 500]\<rparr> \<and>
   all_returned \<lparr>balance = 500, mu = False, ledger = testChannelBased_ledger,
           worker = NotRunning,
           goroutines = [Returned InsufficientFunds 700, Returned WithdrawalOK 500]\<rparr> \<and>
   (0 :: go_int) \<le>s 500 \<and>
   run [Goroutine 0, Goroutine 0, Goroutine 0, Goroutine 0, Goroutine 1]
     (testMutex_start testChannelBased_ledger) = None \<and>
   run [Goroutine 0, Goroutine 0, Goroutine 0, Goroutine 0, Goroutine 0,
        Goroutine 1, Goroutine 1, Goroutine 1]
     (testMutex_start testChannelBased_ledger) =
     Some \<lparr>balance = 300, mu = False, ledger = testChannelBased_ledger, worker = NotRunning,
           goroutines = [Returned WithdrawalOK 700, Returned InsufficientFunds 500]\<rparr> \<and>
   (0 :: go_int) \<le>s 300"
proof -
  let ?s = "[Goroutine 1, Goroutine 1, Goroutine 1, Goroutine 1, Goroutine 1,
        Goroutine 0, Goroutine 0, Goroutine 0]"
  let ?w = "\<lparr>balance = 500, mu = False, ledger = testChannelBased_ledger,
           worker = NotRunning,
           goroutines = [Returned InsufficientFunds 700, Returned WithdrawalOK 500]\<rparr>"
  let ?s' = "[Goroutine 0, Goroutine 0, Goroutine 0, Goroutine 0, Goroutine 0,
        Goroutine 1, Goroutine 1, Goroutine 1]"
  let ?w' = "\<lparr>balance = 300, mu = False, ledger = testChannelBased_ledger,
           worker = NotRunning,
           goroutines = [Returned WithdrawalOK 700, Returned InsufficientFunds 500]\<rparr>"
  have h: "run ?s (testMutex_start testChannelBased_ledger) = Some ?w"
    by (simp add: testMutex_start_def word_sle_eq)
  have h': "run ?s' (testMutex_start testChannelBased_ledger) = Some ?w'"
    by (simp add: testMutex_start_def word_sle_eq)
  have b: "run [Goroutine 0, Goroutine 0, Goroutine 0, Goroutine 0, Goroutine 1]
     (testMutex_start testChannelBased_ledger) = None"
    by (simp add: testMutex_start_def word_sle_eq)
  have r: "all_returned ?w" by (simp add: all_returned_def)
  from at_most_one_winner [OF h] at_most_one_winner [OF h'] h h' b r show ?thesis by simp
qed

text \<open>
  C4. Serialization determinism. The Serializing Executor starts from customer 1000,
  bank 5000 and is given withdrawal(700), withdrawal(500), withdrawal(400) and
  deposit(1500); the worker processes them in the order in which their submissions
  complete. Whenever all four commit, the final state is customer 900, bank 5100.
  Whichever withdrawals are rejected for insufficient funds, the total is 6000, because a
  rejected withdrawal leaves both balances untouched. This holds for every order of the
  four transactions, the written one included, and for every schedule of
  \<open>testChannelBased\<close>.
\<close>

theorem serialization_determinism:
  "(mset txs = mset submitted \<and>
    list_all committed (fst (transactionProcessor testChannelBased_ledger txs)) \<longrightarrow>
      snd (transactionProcessor testChannelBased_ledger txs) =
        \<lparr>CustomerBalance = 900, BankBalance = 5100\<rparr>) \<and>
   ledger_total (snd (transactionProcessor testChannelBased_ledger txs)) = 6000 \<and>
   (Type tx = ''withdrawal'' \<and> fst (processTx l tx) = InsufficientFunds \<longrightarrow>
      snd (processTx l tx) = l) \<and>
   (run sched (testChannelBased_start b) = Some w \<longrightarrow> ledger_total (ledger w) = 6000) \<and>
   (run sched (testChannelBased_start b) = Some w \<and> all_returned w \<and> worker w = Receiving \<and>
    list_all committed (fst (transactionProcessor testChannelBased_ledger
      (handoffs sched (testChannelBased_start b)))) \<longrightarrow>
      ledger w = \<lparr>CustomerBalance = 900, BankBalance = 5100\<rparr>)"
proof (intro conjI impI)
  assume a: "mset txs = mset submitted \<and>
    list_all committed (fst (transactionProcessor testChannelBased_ledger txs))"
  then have "InsufficientFunds \<notin> set (fst (transactionProcessor testChannelBased_ledger txs))"
    using committed_not_rejected by blast
  from transactionProcessor_all_committed [OF this] sum_list_net_mset [of txs submitted] a
  show "snd (transactionProcessor testChannelBased_ledger txs) =
          \<lparr>CustomerBalance = 900, BankBalance = 5100\<rparr>"
    by (simp add: net_submitted testChannelBased_ledger_def)
next
  have "ledger_total testChannelBased_ledger = 6000"
    by (simp add: ledger_total_def testChannelBased_ledger_def)
  then show "ledger_total (snd (transactionProcessor testChannelBased_ledger txs)) = 6000"
    by (simp add: total_transactionProcessor)
next
  assume "Type tx = ''withdrawal'' \<and> fst (processTx l tx) = InsufficientFunds"
  then show "snd (processTx l tx) = l"
    by (simp add: processTx_def split: if_splits)
next
  assume r: "run sched (testChannelBased_start b) = Some w"
  have "ledger_total (ledger (testChannelBased_start b)) = 6000"
    by (simp add: ledger_total_def testChannelBased_ledger_def testChannelBased_start_def)
  with run_ledger_total [OF r] show "ledger_total (ledger w) = 6000" by simp
next
  let ?v = "testChannelBased_start b"
  assume a: "run sched ?v = Some w \<and> all_returned w \<and> worker w = Receiving \<and>
    list_all committed (fst (transactionProcessor testChannelBased_ledger (handoffs sched ?v)))"
  then have r: "run sched ?v = Some w" and f: "all_returned w" by simp_all
  from testChannelBased_handoffs [OF r f]
  have m: "mset (handoffs sched ?v) = mset submitted" .
  from a have "InsufficientFunds \<notin>
      set (fst (transactionProcessor testChannelBased_ledger (handoffs sched ?v)))"
    using committed_not_rejected by blast
  from transactionProcessor_all_committed [OF this] sum_list_net_mset [OF m]
  have "snd (transactionProcessor testChannelBased_ledger (handoffs sched ?v)) =
          \<lparr>CustomerBalance = 900, BankBalance = 5100\<rparr>"
    by (simp add: net_submitted testChannelBased_ledger_def)
  moreover from run_ledger [OF r] a
  have "ledger w = snd (transactionProcessor testChannelBased_ledger (handoffs sched ?v))"
    by (simp add: testChannelBased_start_def)
  ultimately show "ledger w = \<lparr>CustomerBalance = 900, BankBalance = 5100\<rparr>" by simp
qed

theorem serialization_determinism_witness:
  "mset [tx_salary, tx_phone, tx_atm, tx_online] = mset submitted \<and>
   list_all committed
     (fst (transactionProcessor testChannelBased_ledger [tx_salary, tx_phone, tx_atm, tx_online])) \<and>
   snd (transactionProcessor testChannelBased_ledger [tx_salary, tx_phone, tx_atm, tx_online]) =
     \<lparr>CustomerBalance = 900, BankBalance = 5100\<rparr> \<and>
   ledger_total (snd (transactionProcessor testChannelBased_ledger
     [tx_salary, tx_phone, tx_atm, tx_online])) = 6000 \<and>
   Type tx_atm = ''withdrawal'' \<and>
   processTx \<lparr>CustomerBalance = 300, BankBalance = 5700\<rparr> tx_atm =
     (InsufficientFunds, \<lparr>CustomerBalance = 300, BankBalance = 5700\<rparr>) \<and>
   run [Goroutine 3, Worker, Goroutine 1, Worker, Goroutine 0, Worker, Goroutine 2, Worker]
     (testChannelBased_start 1000) =
     Some \<lparr>balance = 1000, mu = False,
           ledger = \<lparr>CustomerBalance = 900, BankBalance = 5100\<rparr>,
           worker = Receiving, goroutines = [Sent, Sent, Sent, Sent]\<rparr> \<and>
   handoffs [Goroutine 3, Worker, Goroutine 1, Worker, Goroutine 0, Worker, Goroutine 2, Worker]
     (testChannelBased_start 1000) = [tx_salary, tx_atm, tx_phone, tx_online] \<and>
   list_all committed
     (fst (transactionProcessor testChannelBased_ledger [tx_salary, tx_atm, tx_phone, tx_online])) \<and>
   ledger_total \<lparr>CustomerBalance = 900, BankBalance = 5100\<rparr> = 6000"
proof -
  let ?l = "\<lparr>CustomerBalance = 300, BankBalance = 5700\<rparr>"
  let ?txs = "[tx_salary, tx_phone, tx_atm, tx_online]"
  let ?v = "testChannelBased_start 1000"
  let ?s = "[Goroutine 3, Worker, Goroutine 1, Worker, Goroutine 0, Worker, Goroutine 2, Worker]"
  let ?w = "\<lparr>balance = 1000, mu = False,
           ledger = \<lparr>CustomerBalance = 900, BankBalance = 5100\<rparr>,
           worker = Receiving, goroutines = [Sent, Sent, Sent, Sent]\<rparr>"
  have h1: "mset ?txs = mset submitted" by (simp add: submitted_def)
  have h2: "list_all committed (fst (transactionProcessor testChannelBased_ledger ?txs))"
    by (simp add: testChannelBased_ledger_def tx_phone_def tx_atm_def tx_online_def
        tx_salary_def processTx_def word_sle_eq)
  have h3: "Type tx_atm = ''withdrawal'' \<and> processTx ?l tx_atm = (InsufficientFunds, ?l)"
    by (simp add: tx_atm_def processTx_def word_sle_eq)
  have h4: "run ?s ?v = Some ?w"
    by (simp add: testChannelBased_start_def testChannelBased_ledger_def tx_phone_def
        tx_atm_def tx_online_def tx_salary_def processTx_def word_sle_eq)
  have h5: "handoffs ?s ?v = [tx_salary, tx_atm, tx_phone, tx_online]"
    by (simp add: testChannelBased_start_def testChannelBased_ledger_def tx_phone_def
        tx_atm_def tx_online_def tx_salary_def processTx_def word_sle_eq)
  have h6: "list_all committed
     (fst (transactionProcessor testChannelBased_ledger [tx_salary, tx_atm, tx_phone, tx_online]))"
    by (simp add: testChannelBased_ledger_def tx_phone_def tx_atm_def tx_online_def
        tx_salary_def processTx_def word_sle_eq)
  have h7: "all_returned ?w \<and> worker ?w = Receiving" by (simp add: all_returned_def)
  note t = serialization_determinism [where txs = ?txs and tx = tx_atm and l = ?l
      and sched = ?s and b = 1000 and w = ?w]
  from t h1 h2 have c1: "snd (transactionProcessor testChannelBased_ledger ?txs) =
      \<lparr>CustomerBalance = 900, BankBalance = 5100\<rparr>" by blast
  from t have c2: "ledger_total (snd (transactionProcessor testChannelBased_ledger ?txs)) = 6000"
    by blast
  from t h4 have c3: "ledger_total (ledger ?w) = 6000" by blast
  from h1 h2 h3 h4 h5 h6 c1 c2 c3 show ?thesis by simp
qed

text \<open>
  C5. Insufficient funds is an ordinary outcome that leaves the state as it was. In the
  Serializing Executor a withdrawal whose amount exceeds the customer balance is reported
  as failed and returns the ledger unchanged. In the Lock-Guarded Executor a call that
  holds the lock and finds the amount above the balance releases the lock and returns with
  the failure, \<open>balance\<close> and everything else in the world being unchanged; so a whole
  call that finds the lock free leaves the world as it was, but for having returned.
  Neither aborts: each yields a result.
\<close>

theorem insufficient_funds_unmodified:
  "(Type tx = ''withdrawal'' \<and> CustomerBalance l <s Amount tx \<longrightarrow>
      processTx l tx = (InsufficientFunds, l)) \<and>
   (k < length (goroutines w) \<and> goroutines w ! k = MutexCheck a \<and> balance w <s a \<longrightarrow>
      run [Goroutine k, Goroutine k] w =
        Some (w\<lparr>mu := False, goroutines := (goroutines w)[k := Returned InsufficientFunds a]\<rparr>)) \<and>
   (k < length (goroutines w) \<and> goroutines w ! k = MutexLock a \<and> \<not> mu w \<and> balance w <s a \<longrightarrow>
      run [Goroutine k, Goroutine k, Goroutine k] w =
        Some (w\<lparr>goroutines := (goroutines w)[k := Returned InsufficientFunds a]\<rparr>))"
proof (intro conjI impI)
  assume "Type tx = ''withdrawal'' \<and> CustomerBalance l <s Amount tx"
  then show "processTx l tx = (InsufficientFunds, l)"
    by (auto simp: processTx_def)
next
  assume "k < length (goroutines w) \<and> goroutines w ! k = MutexCheck a \<and> balance w <s a"
  then show "run [Goroutine k, Goroutine k] w =
        Some (w\<lparr>mu := False, goroutines := (goroutines w)[k := Returned InsufficientFunds a]\<rparr>)"
    by auto
next
  assume "k < length (goroutines w) \<and> goroutines w ! k = MutexLock a \<and> \<not> mu w \<and>
    balance w <s a"
  then show "run [Goroutine k, Goroutine k, Goroutine k] w =
        Some (w\<lparr>goroutines := (goroutines w)[k := Returned InsufficientFunds a]\<rparr>)"
    by auto
qed

theorem insufficient_funds_unmodified_witness:
  "Type tx_atm = ''withdrawal'' \<and>
   CustomerBalance \<lparr>CustomerBalance = 300, BankBalance = 5700\<rparr> <s Amount tx_atm \<and>
   processTx \<lparr>CustomerBalance = 300, BankBalance = 5700\<rparr> tx_atm =
     (InsufficientFunds, \<lparr>CustomerBalance = 300, BankBalance = 5700\<rparr>) \<and>
   run [Goroutine 1, Goroutine 1]
     \<lparr>balance = 300, mu = True, ledger = testChannelBased_ledger, worker = NotRunning,
      goroutines = [Returned WithdrawalOK 700, MutexCheck 500]\<rparr> =
     Some \<lparr>balance = 300, mu = False, ledger = testChannelBased_ledger, worker = NotRunning,
           goroutines = [Returned WithdrawalOK 700, Returned InsufficientFunds 500]\<rparr> \<and>
   run [Goroutine 1, Goroutine 1, Goroutine 1]
     \<lparr>balance = 300, mu = False, ledger = testChannelBased_ledger, worker = NotRunning,
      goroutines = [Returned WithdrawalOK 700, MutexLock 500]\<rparr> =
     Some \<lparr>balance = 300, mu = False, ledger = testChannelBased_ledger, worker = NotRunning,
           goroutines = [Returned WithdrawalOK 700, Returned InsufficientFunds 500]\<rparr>"
proof -
  let ?l = "\<lparr>CustomerBalance = 300, BankBalance = 5700\<rparr>"
  let ?w = "\<lparr>balance = 300, mu = True, ledger = testChannelBased_ledger, worker = NotRunning,
      goroutines = [Returned WithdrawalOK 700, MutexCheck 500]\<rparr>"
  let ?v = "\<lparr>balance = 300, mu = False, ledger = testChannelBased_ledger, worker = NotRunning,
      goroutines = [Returned WithdrawalOK 700, MutexLock 500]\<rparr>"
  have h1: "Type tx_atm = ''withdrawal'' \<and> CustomerBalance ?l <s Amount tx_atm"
    by (simp add: tx_atm_def word_sless_alt)
  have h2: "1 < length (goroutines ?w) \<and> goroutines ?w ! 1 = MutexCheck 500 \<and>
      balance ?w <s 500"
    by (simp add: word_sless_alt)
  have h3: "1 < length (goroutines ?v) \<and> goroutines ?v ! 1 = MutexLock 500 \<and> \<not> mu ?v \<and>
      balance ?v <s 500"
    by (simp add: word_sless_alt)
  from insufficient_funds_unmodified [where tx = tx_atm and l = ?l and k = 1 and w = ?w
      and a = 500]
    insufficient_funds_unmodified [where tx = tx_atm and l = ?l and k = 1 and w = ?v
      and a = 500]
    h1 h2 h3
  show ?thesis by simp
qed

text \<open>
  C6. A deposit always commits in the Serializing Executor: whatever the ledger, a
  transaction of type "deposit" is reported as committed, its amount is added to
  \<open>CustomerBalance\<close> and subtracted from \<open>BankBalance\<close> (both wrapping, as Go's \<open>int\<close>
  does), and no funds are checked; so does the worker that holds such a transaction.
\<close>

theorem deposit_always_commits:
  "(Type tx = ''deposit'' \<longrightarrow>
      processTx l tx =
        (DepositOK, \<lparr>CustomerBalance = CustomerBalance l + Amount tx,
                     BankBalance = BankBalance l - Amount tx\<rparr>)) \<and>
   (worker w = Processing tx \<and> Type tx = ''deposit'' \<longrightarrow>
      step Worker w =
        Some (w\<lparr>ledger := \<lparr>CustomerBalance = CustomerBalance (ledger w) + Amount tx,
                            BankBalance = BankBalance (ledger w) - Amount tx\<rparr>,
                worker := Receiving\<rparr>))"
  by (simp add: processTx_def)

theorem deposit_always_commits_witness:
  "Type tx_salary = ''deposit'' \<and>
   processTx testChannelBased_ledger tx_salary =
     (DepositOK, \<lparr>CustomerBalance = 2500, BankBalance = 3500\<rparr>) \<and>
   step Worker \<lparr>balance = 1000, mu = False, ledger = testChannelBased_ledger,
                worker = Processing tx_salary, goroutines = [Sent]\<rparr> =
     Some \<lparr>balance = 1000, mu = False,
           ledger = \<lparr>CustomerBalance = 2500, BankBalance = 3500\<rparr>,
           worker = Receiving, goroutines = [Sent]\<rparr>"
proof -
  let ?w = "\<lparr>balance = 1000, mu = False, ledger = testChannelBased_ledger,
                worker = Processing tx_salary, goroutines = [Sent]\<rparr>"
  have h: "Type tx_salary = ''deposit''" by (simp add: tx_salary_def)
  have h': "worker ?w = Processing tx_salary" by simp
  from deposit_always_commits [where tx = tx_salary and l = testChannelBased_ledger and w = ?w]
    h h'
  show ?thesis by (simp add: testChannelBased_ledger_def tx_salary_def)
qed

text \<open>
  C7, as stated, fails: \<open>withdrawRace\<close> and \<open>withdrawMutex\<close> work on the same
  process-wide \<open>balance\<close>. A \<open>withdrawRace(700)\<close> that runs first leaves 300 there, and a
  \<open>withdrawMutex(500)\<close> in the same world then fails for insufficient funds; run alone on
  the untouched 1000 it succeeds.
\<close>

theorem race_shares_balance:
  "run [Goroutine 0, Goroutine 0, Goroutine 0, Goroutine 1, Goroutine 1, Goroutine 1]
     \<lparr>balance = 1000, mu = False, ledger = testChannelBased_ledger, worker = NotRunning,
      goroutines = [RaceCheck 700, MutexLock 500]\<rparr> =
     Some \<lparr>balance = 300, mu = False, ledger = testChannelBased_ledger, worker = NotRunning,
           goroutines = [Returned WithdrawalOK 700, Returned InsufficientFunds 500]\<rparr> \<and>
   run [Goroutine 1, Goroutine 1, Goroutine 1, Goroutine 1, Goroutine 1]
     \<lparr>balance = 1000, mu = False, ledger = testChannelBased_ledger, worker = NotRunning,
      goroutines = [RaceCheck 700, MutexLock 500]\<rparr> =
     Some \<lparr>balance = 500, mu = False, ledger = testChannelBased_ledger, worker = NotRunning,
           goroutines = [RaceCheck 700, Returned WithdrawalOK 500]\<rparr>"
  by (simp add: word_sle_eq)

text \<open>
  C7, amended. The Ledger of the Serializing Executor is separate from \<open>balance\<close>: a
  step of the worker or of a producer leaves \<open>balance\<close> and \<open>mu\<close> as they were, and a step
  of any other goroutine (Unsynchronized or Lock-Guarded) leaves the Ledger and the worker
  as they were. The Unsynchronized and the Lock-Guarded Executor share the one
  process-wide \<open>balance\<close>, which each of their scenarios sets to 1000 before it starts
  its goroutines.
\<close>

theorem executor_frames:
  assumes "step a w = Some w'"
  shows "(serializing a w \<longrightarrow> balance w' = balance w \<and> mu w' = mu w) \<and>
    (\<not> serializing a w \<longrightarrow> ledger w' = ledger w \<and> worker w' = worker w) \<and>
    balance (testRaceCondition_start l) = 1000 \<and> balance (testMutex_start l) = 1000"
  using step_frame [OF assms]
  by (simp add: testRaceCondition_start_def testMutex_start_def split: if_splits)

theorem executor_frames_witness:
  "step Worker \<lparr>balance = - 200, mu = False, ledger = testChannelBased_ledger,
                worker = Processing tx_phone, goroutines = [Sent, Send tx_atm]\<rparr> =
     Some \<lparr>balance = - 200, mu = False,
           ledger = \<lparr>CustomerBalance = 300, BankBalance = 5700\<rparr>,
           worker = Receiving, goroutines = [Sent, Send tx_atm]\<rparr> \<and>
   serializing Worker \<lparr>balance = - 200, mu = False, ledger = testChannelBased_ledger,
                worker = Processing tx_phone, goroutines = [Sent, Send tx_atm]\<rparr> \<and>
   step (Goroutine 0) (testRaceCondition_start testChannelBased_ledger) =
     Some \<lparr>balance = 1000, mu = False, ledger = testChannelBased_ledger, worker = NotRunning,
           goroutines = [RaceLoad 700, RaceCheck 500]\<rparr> \<and>
   \<not> serializing (Goroutine 0) (testRaceCondition_start testChannelBased_ledger) \<and>
   balance (testMutex_start testChannelBased_ledger) = 1000"
proof -
  let ?w = "\<lparr>balance = - 200, mu = False, ledger = testChannelBased_ledger,
                worker = Processing tx_phone, goroutines = [Sent, Send tx_atm]\<rparr>"
  let ?w' = "\<lparr>balance = - 200, mu = False,
           ledger = \<lparr>CustomerBalance = 300, BankBalance = 5700\<rparr>,
           worker = Receiving, goroutines = [Sent, Send tx_atm]\<rparr>"
  let ?v = "testRaceCondition_start testChannelBased_ledger"
  let ?v' = "\<lparr>balance = 1000, mu = False, ledger = testChannelBased_ledger,
           worker = NotRunning, goroutines = [RaceLoad 700, RaceCheck 500]\<rparr>"
  have h1: "step Worker ?w = Some ?w'"
    by (simp add: testChannelBased_ledger_def tx_phone_def processTx_def word_sle_eq)
  have h2: "step (Goroutine 0) ?v = Some ?v'"
    by (simp add: testRaceCondition_start_def word_sle_eq)
  have s1: "serializing Worker ?w" by simp
  have s2: "\<not> serializing (Goroutine 0) ?v" by (simp add: testRaceCondition_start_def)
  from executor_frames [OF h1, of testChannelBased_ledger]
    executor_frames [OF h2, of testChannelBased_ledger] h1 h2 s1 s2
  show ?thesis by simp
qed

text \<open>
  C8, as stated, fails: \<open>txChan\<close> is unbuffered. In \<open>testChannelBased\<close>, once the first
  producer has handed its transaction to the worker, the second producer cannot complete
  its send: it is blocked while the worker is processing.
\<close>

theorem submission_blocks:
  "run [Goroutine 0] (testChannelBased_start 1000) =
     Some \<lparr>balance = 1000, mu = False, ledger = testChannelBased_ledger,
           worker = Processing tx_phone,
           goroutines = [Sent, Send tx_atm, Send tx_online, Send tx_salary]\<rparr> \<and>
   step (Goroutine 1)
     \<lparr>balance = 1000, mu = False, ledger = testChannelBased_ledger,
      worker = Processing tx_phone,
      goroutines = [Sent, Send tx_atm, Send tx_online, Send tx_salary]\<rparr> = None"
  by (simp add: testChannelBased_start_def)

text \<open>
  C8, amended. Submission to the Serializing Executor is a blocking hand-off. For any
  number of producers, a send completes exactly when the single worker is waiting to
  receive, and it puts the transaction straight into the worker's hands; while the worker
  is processing, a producer at its send is blocked, and nothing is queued. The worker
  applies the transactions one at a time in the order in which their sends complete: after
  any schedule that starts and ends with the worker waiting, the ledger is the result of
  the loop on the transactions in hand-off order.
\<close>

theorem submission_hand_off:
  "(k < length (goroutines w) \<and> goroutines w ! k = Send tx \<longrightarrow>
      step (Goroutine k) w =
        (if worker w = Receiving
         then Some (w\<lparr>worker := Processing tx, goroutines := (goroutines w)[k := Sent]\<rparr>)
         else None)) \<and>
   (run sched v = Some v' \<and> worker v = Receiving \<and> worker v' = Receiving \<longrightarrow>
      ledger v' = snd (transactionProcessor (ledger v) (handoffs sched v)))"
proof (intro conjI impI)
  assume "k < length (goroutines w) \<and> goroutines w ! k = Send tx"
  then show "step (Goroutine k) w =
        (if worker w = Receiving
         then Some (w\<lparr>worker := Processing tx, goroutines := (goroutines w)[k := Sent]\<rparr>)
         else None)"
    by simp
next
  assume "run sched v = Some v' \<and> worker v = Receiving \<and> worker v' = Receiving"
  then show "ledger v' = snd (transactionProcessor (ledger v) (handoffs sched v))"
    using run_ledger [of sched v v'] by simp
qed

theorem submission_hand_off_witness:
  "step (Goroutine 3) (testChannelBased_start 1000) =
     Some \<lparr>balance = 1000, mu = False, ledger = testChannelBased_ledger,
           worker = Processing tx_salary,
           goroutines = [Send tx_phone, Send tx_atm, Send tx_online, Sent]\<rparr> \<and>
   run [Goroutine 3, Worker, Goroutine 0, Worker, Goroutine 1, Worker, Goroutine 2, Worker]
     (testChannelBased_start 1000) =
     Some \<lparr>balance = 1000, mu = False,
           ledger = \<lparr>CustomerBalance = 900, BankBalance = 5100\<rparr>,
           worker = Receiving, goroutines = [Sent, Sent, Sent, Sent]\<rparr> \<and>
   handoffs [Goroutine 3, Worker, Goroutine 0, Worker, Goroutine 1, Worker, Goroutine 2, Worker]
     (testChannelBased_start 1000) = [tx_salary, tx_phone, tx_atm, tx_online] \<and>
   snd (transactionProcessor testChannelBased_ledger [tx_salary, tx_phone, tx_atm, tx_online]) =
     \<lparr>CustomerBalance = 900, BankBalance = 5100\<rparr>"
proof -
  let ?v = "testChannelBased_start 1000"
  let ?s = "[Goroutine 3, Worker, Goroutine 0, Worker, Goroutine 1, Worker, Goroutine 2, Worker]"
  let ?v' = "\<lparr>balance = 1000, mu = False,
           ledger = \<lparr>CustomerBalance = 900, BankBalance = 5100\<rparr>,
           worker = Receiving, goroutines = [Sent, Sent, Sent, Sent]\<rparr>"
  have h1: "3 < length (goroutines ?v) \<and> goroutines ?v ! 3 = Send tx_salary"
    by (simp add: testChannelBased_start_def)
  have h2: "run ?s ?v = Some ?v'"
    by (simp add: testChannelBased_start_def testChannelBased_ledger_def tx_phone_def
        tx_atm_def tx_online_def tx_salary_def processTx_def word_sle_eq)
  have h3: "handoffs ?s ?v = [tx_salary, tx_phone, tx_atm, tx_online]"
    by (simp add: testChannelBased_start_def testChannelBased_ledger_def tx_phone_def
        tx_atm_def tx_online_def tx_salary_def processTx_def word_sle_eq)
  have h4: "worker ?v = Receiving \<and> worker ?v' = Receiving"
    by (simp add: testChannelBased_start_def)
  from submission_hand_off [where k = 3 and w = ?v and tx = tx_salary and sched = ?s
      and v = ?v and v' = ?v'] h1 h2 h3 h4
  show ?thesis by (simp add: testChannelBased_start_def)
qed




end
